theory Spec2Isabelle
  imports Complex_Main "HOL-Library.Word" "HOL-Library.Log_Nat"
begin

section \<open>Data model\<close>

text \<open>
  The search driver of \<^verbatim>\<open>src/Optimizer.cpp\<close> works on three collaborators whose
  code is outside the file: the tree (\<^verbatim>\<open>TreeInfo\<close>), the checkpoint manager and the
  parallel context. The driver itself is sequential. A \<^verbatim>\<open>double\<close> is modelled as the real
  number it denotes, and every operation the driver performs on \<^verbatim>\<open>double\<close>s (the
  differences and quotients of objectives, the radius limit) is rounded as binary64
  arithmetic rounds it; infinities and NaN are modelled only where the driver can
  produce them itself, in the quotient by an objective of zero. The \<^verbatim>\<open>int\<close> values are
  unbounded integers (the iteration counter and the radii stay far from the 32-bit range
  in any run that ends), except where a conversion to \<^verbatim>\<open>int\<close> can leave that range.
\<close>

text \<open>
  Modelled from the spec: the enumeration \<^verbatim>\<open>CheckpointStep\<close> is declared in a header
  that is not part of the sources at hand; its members and their order are the ones the
  specification lists. \<open>step_ord\<close> is the ordinal that \<^verbatim>\<open>step >= resume_step\<close> compares.
\<close>

datatype CheckpointStep =
  brlenOpt | modOpt1 | radiusDetectOrNNI | modOpt2 | fastSPR | modOpt3 | slowSPR | modOpt4 | finish

fun step_ord :: "CheckpointStep \<Rightarrow> nat" where
  "step_ord brlenOpt = 0"
| "step_ord modOpt1 = 1"
| "step_ord radiusDetectOrNNI = 2"
| "step_ord modOpt2 = 3"
| "step_ord fastSPR = 4"
| "step_ord modOpt3 = 5"
| "step_ord slowSPR = 6"
| "step_ord modOpt4 = 7"
| "step_ord finish = 8"

text \<open>
  Modelled from the spec: \<^verbatim>\<open>spr_round_params\<close>, \<^verbatim>\<open>nni_round_params\<close> and
  \<^verbatim>\<open>SearchState\<close> are declared outside the file too. The fields are the ones the
  driver reads and writes; \<open>cutoff_info\<close> stands for the cutoff-tracking record, of which
  only the reference log-likelihood set by \<^verbatim>\<open>reset_cutoff_info\<close> is kept.
\<close>

record spr_round_params =
  thorough :: bool
  radius_min :: int
  radius_max :: int
  ntopol_keep :: int
  subtree_cutoff :: real
  lh_epsilon_brlen_full :: real
  lh_epsilon_brlen_triplet :: real
  cutoff_info :: real

definition reset_cutoff_info :: "real \<Rightarrow> spr_round_params \<Rightarrow> spr_round_params" where
  "reset_cutoff_info l p = p\<lparr>cutoff_info := l\<rparr>"

record nni_round_params =
  tolerance :: real
  lh_epsilon :: real

record SearchState =
  loglh :: real
  iteration :: int
  step :: CheckpointStep
  spr_params :: spr_round_params
  nni_params :: nni_round_params
  fast_spr_radius :: int

text \<open>
  The members of \<^verbatim>\<open>Optimizer\<close> that the constructor copies from the options
  (\<^verbatim>\<open>_lh_epsilon\<close>, \<^verbatim>\<open>_lh_epsilon_brlen_triplet\<close>, \<^verbatim>\<open>_spr_radius\<close>, \<^verbatim>\<open>_spr_cutoff\<close>,
  \<^verbatim>\<open>_nni_epsilon\<close>, \<^verbatim>\<open>_nni_tolerance\<close>).
\<close>

record Optimizer =
  opt_lh_epsilon :: real
  opt_lh_epsilon_brlen_triplet :: real
  opt_spr_radius :: int
  opt_spr_cutoff :: real
  opt_nni_epsilon :: real
  opt_nni_tolerance :: real

text \<open>
  The tree is a parameter: any deterministic \<^verbatim>\<open>TreeInfo\<close> is a type \<open>'t\<close> of internal
  states with the operations the driver calls. An operation that mutates the tree returns
  the new state next to its \<^verbatim>\<open>double\<close> result. \<^verbatim>\<open>tip_count\<close> is an unsigned 32-bit field.
\<close>

record 't TreeInfo =
  ti_loglh :: "'t \<Rightarrow> real"
  ti_optimize_params_all :: "real \<Rightarrow> 't \<Rightarrow> 't"
  ti_optimize_branches :: "real \<Rightarrow> real \<Rightarrow> 't \<Rightarrow> real \<times> 't"
  ti_spr_round :: "spr_round_params \<Rightarrow> 't \<Rightarrow> real \<times> 't"
  ti_nni_round :: "nni_round_params \<Rightarrow> 't \<Rightarrow> real \<times> 't"
  ti_tip_count :: "'t \<Rightarrow> 32 word"

text \<open>
  What a run does to its collaborators is recorded as a list of events, in program order:
  every call into the tree, every \<^verbatim>\<open>cm.update_and_write\<close> (\<open>Persist\<close>) and every
  statement that assigns the iteration counter, the SPR or NNI parameters or the fast
  radius of the search state (\<open>SetParams\<close>). An event carries the stage in whose
  \<^verbatim>\<open>if (do_step(...))\<close> block its statement stands, or \<open>None\<close> for a statement
  outside every such block.
\<close>

datatype action =
  Persist
| Loglh
| TipCount
| OptimizeParamsAll real
| OptimizeBranches real real
| SprRound spr_round_params
| NniRound nni_round_params
| SetParams

type_synonym event = "CheckpointStep option \<times> action"

fun mutating :: "action \<Rightarrow> bool" where
  "mutating (OptimizeParamsAll _) = True"
| "mutating (OptimizeBranches _ _) = True"
| "mutating (SprRound _) = True"
| "mutating (NniRound _) = True"
| "mutating _ = False"

record 't run =
  treeinfo :: 't
  search_state :: SearchState
  in_stage :: "CheckpointStep option"
  trace :: "event list"

text \<open>
  A loop of the driver has no iteration cap. Each loop of the model takes a number \<open>n\<close>
  of permitted repetitions of its body; a loop that would go round once more than
  permitted stops with \<open>OutOfFuel\<close> and the state reached so far, and nothing after it
  runs.
\<close>

datatype ('a, 's) outcome = Done 'a 's | OutOfFuel 's

fun final_state :: "('a, 's) outcome \<Rightarrow> 's" where
  "final_state (Done _ s) = s"
| "final_state (OutOfFuel s) = s"

fun then_do :: "('a, 's) outcome \<Rightarrow> ('a \<Rightarrow> 's \<Rightarrow> ('b, 's) outcome) \<Rightarrow> ('b, 's) outcome" where
  "then_do (Done a s) f = f a s"
| "then_do (OutOfFuel s) f = OutOfFuel s"

text \<open>
  \<^verbatim>\<open>do { body } while (again);\<close> The body works on the state and on a local variable
  that the loop carries from one pass to the next; it yields the value of the loop test.
  With \<open>n\<close> the body runs at most \<open>n + 1\<close> times.
\<close>

fun do_while :: "nat \<Rightarrow> ('a \<Rightarrow> 's \<Rightarrow> bool \<times> 'a \<times> 's) \<Rightarrow> 'a \<Rightarrow> 's \<Rightarrow> ('a, 's) outcome" where
  "do_while 0 body a s =
     (let (again, a', s') = body a s
      in if again then OutOfFuel s' else Done a' s')"
| "do_while (Suc n) body a s =
     (let (again, a', s') = body a s
      in if again then do_while n body a' s' else Done a' s')"

section \<open>Binary64 arithmetic\<close>

text \<open>
  A finite \<^verbatim>\<open>double\<close> is a real number with a 53-bit significand, and the result of an
  operation on \<^verbatim>\<open>double\<close>s is the exact result rounded to the nearest such number, ties
  to the even significand (\<open>round64\<close>). \<open>binade n x\<close> is the exponent \<open>e\<close> with
  \<open>2 ^ e \<le> x < 2 ^ (e + 1)\<close>, found in at most \<open>n\<close> steps; 1100 steps reach every
  \<^verbatim>\<open>double\<close>. Below \<open>2 ^ - 1022\<close> the spacing stays that of the smallest normal numbers.
  A result beyond the largest \<^verbatim>\<open>double\<close> is not replaced by an infinity; the comparisons of
  the driver come out the same on either. \<open>sub64\<close> is the subtraction of two \<^verbatim>\<open>double\<close>s,
  \<open>finite_double\<close> tells whether a real number is a finite \<^verbatim>\<open>double\<close>.
\<close>

fun binade :: "nat \<Rightarrow> real \<Rightarrow> int" where
  "binade 0 x = 0"
| "binade (Suc n) x =
     (if x \<ge> 2 then binade n (x / 2) + 1
      else if x < 1 then binade n (2 * x) - 1
      else 0)"

definition pow2 :: "int \<Rightarrow> real" where
  "pow2 e = (if e \<ge> 0 then 2 ^ nat e else 1 / 2 ^ nat (- e))"

definition ulp64 :: "real \<Rightarrow> real" where
  "ulp64 x = pow2 (max (binade 1100 \<bar>x\<bar>) (- 1022) - 52)"

definition round_half_even :: "real \<Rightarrow> int" where
  "round_half_even x =
     (if x - of_int \<lfloor>x\<rfloor> < 1 / 2 then \<lfloor>x\<rfloor>
      else if x - of_int \<lfloor>x\<rfloor> > 1 / 2 then \<lfloor>x\<rfloor> + 1
      else if even \<lfloor>x\<rfloor> then \<lfloor>x\<rfloor>
      else \<lfloor>x\<rfloor> + 1)"

definition round64 :: "real \<Rightarrow> real" where
  "round64 x = (if x = 0 then 0 else of_int (round_half_even (x / ulp64 x)) * ulp64 x)"

definition sub64 :: "real \<Rightarrow> real \<Rightarrow> real" where
  "sub64 a b = round64 (a - b)"

definition max_double :: real where
  "max_double = (2 ^ 53 - 1) * 2 ^ 971"

definition finite_double :: "real \<Rightarrow> bool" where
  "finite_double x \<longleftrightarrow> round64 x = x \<and> \<bar>x\<bar> \<le> max_double"

section \<open>Calls into the collaborators\<close>

definition emit :: "action \<Rightarrow> 't run \<Rightarrow> 't run" where
  "emit a r = r\<lparr>trace := trace r @ [(in_stage r, a)]\<rparr>"

definition update_and_write :: "'t run \<Rightarrow> 't run" where
  "update_and_write r = emit Persist r"

definition call_loglh :: "'t TreeInfo \<Rightarrow> 't run \<Rightarrow> real \<times> 't run" where
  "call_loglh ops r = (ti_loglh ops (treeinfo r), emit Loglh r)"

definition call_tip_count :: "'t TreeInfo \<Rightarrow> 't run \<Rightarrow> 32 word \<times> 't run" where
  "call_tip_count ops r = (ti_tip_count ops (treeinfo r), emit TipCount r)"

definition call_optimize_params_all :: "'t TreeInfo \<Rightarrow> real \<Rightarrow> 't run \<Rightarrow> 't run" where
  "call_optimize_params_all ops eps r =
     emit (OptimizeParamsAll eps) (r\<lparr>treeinfo := ti_optimize_params_all ops eps (treeinfo r)\<rparr>)"

definition call_optimize_branches :: "'t TreeInfo \<Rightarrow> real \<Rightarrow> real \<Rightarrow> 't run \<Rightarrow> real \<times> 't run" where
  "call_optimize_branches ops eps smooth r =
     (let (l, t) = ti_optimize_branches ops eps smooth (treeinfo r)
      in (l, emit (OptimizeBranches eps smooth) (r\<lparr>treeinfo := t\<rparr>)))"

definition call_spr_round :: "'t TreeInfo \<Rightarrow> spr_round_params \<Rightarrow> 't run \<Rightarrow> real \<times> 't run" where
  "call_spr_round ops p r =
     (let (l, t) = ti_spr_round ops p (treeinfo r)
      in (l, emit (SprRound p) (r\<lparr>treeinfo := t\<rparr>)))"

definition call_nni_round :: "'t TreeInfo \<Rightarrow> nni_round_params \<Rightarrow> 't run \<Rightarrow> real \<times> 't run" where
  "call_nni_round ops p r =
     (let (l, t) = ti_nni_round ops p (treeinfo r)
      in (l, emit (NniRound p) (r\<lparr>treeinfo := t\<rparr>)))"

text \<open>Assignment through the reference \<^verbatim>\<open>loglh\<close>, and to the other fields of the state.\<close>

definition set_loglh :: "real \<Rightarrow> 't run \<Rightarrow> 't run" where
  "set_loglh l r = r\<lparr>search_state := (search_state r)\<lparr>loglh := l\<rparr>\<rparr>"

definition set_params :: "(SearchState \<Rightarrow> SearchState) \<Rightarrow> 't run \<Rightarrow> 't run" where
  "set_params f r = emit SetParams (r\<lparr>search_state := f (search_state r)\<rparr>)"

section \<open>Model optimization\<close>

text \<open>
  \<^verbatim>\<open>Optimizer::optimize_model\<close>. \<open>optimize_model_pass\<close> is the body of its do-while
  loop; the variable carried round is \<^verbatim>\<open>new_loglh\<close>, which the next pass copies to
  \<^verbatim>\<open>cur_loglh\<close>.
\<close>

definition optimize_model_pass :: "'t TreeInfo \<Rightarrow> real \<Rightarrow> real \<Rightarrow> 't run \<Rightarrow> bool \<times> real \<times> 't run" where
  "optimize_model_pass ops lh_eps cur_loglh r =
     (let r1 = call_optimize_params_all ops lh_eps r;
          (new_loglh, r2) = call_loglh ops r1
      in (sub64 new_loglh cur_loglh > lh_eps, new_loglh, r2))"

definition optimize_model :: "nat \<Rightarrow> 't TreeInfo \<Rightarrow> real \<Rightarrow> 't run \<Rightarrow> (real, 't run) outcome" where
  "optimize_model n ops lh_eps r =
     (let (new_loglh, r0) = call_loglh ops r
      in do_while n (optimize_model_pass ops lh_eps) new_loglh r0)"

text \<open>
  The statement \<^verbatim>\<open>loglh = optimize_model(treeinfo, eps)\<close> of the schedules: the result is
  assigned only when the call returns.
\<close>

definition loglh_optimize_model :: "nat \<Rightarrow> 't TreeInfo \<Rightarrow> real \<Rightarrow> 't run \<Rightarrow> (unit, 't run) outcome" where
  "loglh_optimize_model n ops lh_eps r =
     then_do (optimize_model n ops lh_eps r) (\<lambda>l r1. Done () (set_loglh l r1))"

text \<open>\<^verbatim>\<open>Optimizer::nni\<close>: one NNI round, the result written through the reference.\<close>

definition nni :: "'t TreeInfo \<Rightarrow> 't run \<Rightarrow> 't run" where
  "nni ops r =
     (let (l, r1) = call_nni_round ops (nni_params (search_state r)) r
      in set_loglh l r1)"

section \<open>Stage gating\<close>

text \<open>
  The closure \<^verbatim>\<open>do_step\<close>, with the captured \<^verbatim>\<open>resume_step\<close> as its first argument.
  \<open>stage\<close> is the statement \<^verbatim>\<open>if (do_step(s)) { body }\<close>: it marks the events of the body
  with \<open>s\<close>. A body may assign a local variable of the schedule; \<open>stage\<close> returns the
  value the variable has after the statement, \<open>d\<close> when the body is skipped.
\<close>

definition do_step :: "CheckpointStep \<Rightarrow> CheckpointStep \<Rightarrow> 't run \<Rightarrow> bool \<times> 't run" where
  "do_step resume_step s r =
     (if step_ord s \<ge> step_ord resume_step
      then (True, r\<lparr>search_state := (search_state r)\<lparr>step := s\<rparr>\<rparr>)
      else (False, r))"

definition stage ::
  "CheckpointStep \<Rightarrow> CheckpointStep \<Rightarrow> 'a \<Rightarrow> ('t run \<Rightarrow> ('a, 't run) outcome) \<Rightarrow> 't run
     \<Rightarrow> ('a, 't run) outcome" where
  "stage resume_step s d body r =
     (let (go, r1) = do_step resume_step s r
      in if go
         then then_do (body (r1\<lparr>in_stage := Some s\<rparr>)) (\<lambda>a r2. Done a (r2\<lparr>in_stage := None\<rparr>))
         else Done d r1)"

definition fast_modopt_eps :: real where
  "fast_modopt_eps = 10"

definition interim_modopt_eps :: real where
  "interim_modopt_eps = 3"

definition final_modopt_eps :: real where
  "final_modopt_eps = round64 (1 / 10)"

definition begin_run :: "SearchState \<Rightarrow> 't \<Rightarrow> 't run" where
  "begin_run cm_state t = \<lparr>treeinfo = t, search_state = cm_state, in_stage = None, trace = []\<rparr>"

definition next_iteration :: "SearchState \<Rightarrow> SearchState" where
  "next_iteration s = s\<lparr>iteration := iteration s + 1\<rparr>"

section \<open>The fixed schedule\<close>

text \<open>The bodies of the stages of \<^verbatim>\<open>Optimizer::optimize_topology\<close>, in program order.\<close>

definition topology_brlenOpt :: "'t TreeInfo \<Rightarrow> 't run \<Rightarrow> (unit, 't run) outcome" where
  "topology_brlenOpt ops r =
     (let r1 = update_and_write r;
          (l, r2) = call_optimize_branches ops fast_modopt_eps 1 r1
      in Done () (set_loglh l r2))"

definition topology_modOpt1 :: "nat \<Rightarrow> 't TreeInfo \<Rightarrow> 't run \<Rightarrow> (unit, 't run) outcome" where
  "topology_modOpt1 n ops r =
     then_do (loglh_optimize_model n ops fast_modopt_eps (update_and_write r))
       (\<lambda>_ r1. Done () (set_params (\<lambda>s. s\<lparr>iteration := 0\<rparr>) r1))"

text \<open>
  The autodetection loop, \<^verbatim>\<open>while (radius_min < radius_limit) { ... else break; }\<close>.
  \<open>autodetect_round\<close> is one pass with the test that follows it; the variable carried
  round is \<^verbatim>\<open>best_loglh\<close>.
\<close>

definition autodetect_round ::
  "'t TreeInfo \<Rightarrow> int \<Rightarrow> int \<Rightarrow> real \<Rightarrow> 't run \<Rightarrow> bool \<times> real \<times> 't run" where
  "autodetect_round ops radius_limit radius_step best_loglh r =
     (let r1 = update_and_write r;
          r2 = set_params next_iteration r1;
          (l, r3) = call_spr_round ops (spr_params (search_state r2)) r2;
          r4 = set_loglh l r3
      in if sub64 l best_loglh > round64 (1 / 10)
         then
           (let r5 = set_params (\<lambda>s. s\<lparr>fast_spr_radius := radius_max (spr_params s),
                       spr_params := (spr_params s)
                         \<lparr>radius_min := radius_min (spr_params s) + radius_step,
                          radius_max := radius_max (spr_params s) + radius_step\<rparr>\<rparr>) r4
            in (radius_min (spr_params (search_state r5)) < radius_limit, l, r5))
         else (False, best_loglh, r4))"

definition autodetect_loop ::
  "nat \<Rightarrow> 't TreeInfo \<Rightarrow> int \<Rightarrow> int \<Rightarrow> real \<Rightarrow> 't run \<Rightarrow> (real, 't run) outcome" where
  "autodetect_loop n ops radius_limit radius_step best_loglh r =
     (if radius_min (spr_params (search_state r)) < radius_limit
      then do_while n (autodetect_round ops radius_limit radius_step) best_loglh r
      else Done best_loglh r)"

definition topology_radiusDetect ::
  "nat \<Rightarrow> 't TreeInfo \<Rightarrow> int \<Rightarrow> int \<Rightarrow> 't run \<Rightarrow> (unit, 't run) outcome" where
  "topology_radiusDetect n ops radius_limit radius_step r =
     (let r1 = (if iteration (search_state r) = 0
                then set_params (\<lambda>s. s\<lparr>spr_params := (spr_params s)
                         \<lparr>thorough := False, radius_min := 1, radius_max := 5,
                          ntopol_keep := 0, subtree_cutoff := 0\<rparr>,
                       fast_spr_radius := 5\<rparr>) r
                else r);
          best_loglh = loglh (search_state r1)
      in then_do (autodetect_loop n ops radius_limit radius_step best_loglh r1)
           (\<lambda>_ r2. Done () r2))"

definition topology_modOpt2 :: "nat \<Rightarrow> 't TreeInfo \<Rightarrow> Optimizer \<Rightarrow> 't run \<Rightarrow> (unit, 't run) outcome" where
  "topology_modOpt2 n ops opt r =
     then_do (loglh_optimize_model n ops interim_modopt_eps (update_and_write r))
       (\<lambda>_ r1. Done () (set_params (\<lambda>s. s\<lparr>iteration := 0,
            spr_params := reset_cutoff_info (loglh s) ((spr_params s)
              \<lparr>thorough := False, radius_min := 1, radius_max := fast_spr_radius s,
               ntopol_keep := 20, subtree_cutoff := opt_spr_cutoff opt\<rparr>)\<rparr>) r1))"

text \<open>
  The statements the two do-while loops of this schedule share; the value is
  \<^verbatim>\<open>old_loglh\<close>.
\<close>

definition spr_and_branches :: "'t TreeInfo \<Rightarrow> Optimizer \<Rightarrow> 't run \<Rightarrow> real \<times> 't run" where
  "spr_and_branches ops opt r =
     (let r1 = update_and_write r;
          r2 = set_params next_iteration r1;
          old_loglh = loglh (search_state r2);
          (l, r3) = call_spr_round ops (spr_params (search_state r2)) r2;
          r4 = set_loglh l r3;
          (l', r5) = call_optimize_branches ops (opt_lh_epsilon opt) 1 r4
      in (old_loglh, set_loglh l' r5))"

definition fast_spr_round :: "'t TreeInfo \<Rightarrow> Optimizer \<Rightarrow> unit \<Rightarrow> 't run \<Rightarrow> bool \<times> unit \<times> 't run" where
  "fast_spr_round ops opt u r =
     (let (old_loglh, r1) = spr_and_branches ops opt r
      in (sub64 (loglh (search_state r1)) old_loglh > opt_lh_epsilon opt, (), r1))"

definition topology_fastSPR :: "nat \<Rightarrow> 't TreeInfo \<Rightarrow> Optimizer \<Rightarrow> 't run \<Rightarrow> (unit, 't run) outcome" where
  "topology_fastSPR n ops opt r = do_while n (fast_spr_round ops opt) () r"

definition topology_modOpt3 :: "nat \<Rightarrow> 't TreeInfo \<Rightarrow> int \<Rightarrow> 't run \<Rightarrow> (unit, 't run) outcome" where
  "topology_modOpt3 n ops radius_step r =
     then_do (loglh_optimize_model n ops 1 (update_and_write r))
       (\<lambda>_ r1. Done () (set_params (\<lambda>s. s\<lparr>spr_params := (spr_params s)
            \<lparr>thorough := True, radius_min := 1, radius_max := radius_step\<rparr>,
          iteration := 0\<rparr>) r1))"

definition slow_spr_round ::
  "'t TreeInfo \<Rightarrow> Optimizer \<Rightarrow> int \<Rightarrow> int \<Rightarrow> unit \<Rightarrow> 't run \<Rightarrow> bool \<times> unit \<times> 't run" where
  "slow_spr_round ops opt radius_limit radius_step u r =
     (let (old_loglh, r1) = spr_and_branches ops opt r;
          impr = (sub64 (loglh (search_state r1)) old_loglh > opt_lh_epsilon opt);
          r2 = (if impr
                then set_params (\<lambda>s. s\<lparr>spr_params := (spr_params s)
                       \<lparr>radius_min := 1, radius_max := radius_step\<rparr>\<rparr>) r1
                else set_params (\<lambda>s. s\<lparr>spr_params := (spr_params s)
                       \<lparr>radius_min := radius_max (spr_params s) + 1,
                        radius_max := radius_max (spr_params s) + radius_step\<rparr>\<rparr>) r1)
      in (radius_min (spr_params (search_state r2)) \<ge> 0
            \<and> radius_min (spr_params (search_state r2)) < radius_limit, (), r2))"

definition topology_slowSPR ::
  "nat \<Rightarrow> 't TreeInfo \<Rightarrow> Optimizer \<Rightarrow> int \<Rightarrow> int \<Rightarrow> 't run \<Rightarrow> (unit, 't run) outcome" where
  "topology_slowSPR n ops opt radius_limit radius_step r =
     do_while n (slow_spr_round ops opt radius_limit radius_step) () r"

definition topology_modOpt4 :: "nat \<Rightarrow> 't TreeInfo \<Rightarrow> 't run \<Rightarrow> (unit, 't run) outcome" where
  "topology_modOpt4 n ops r = loglh_optimize_model n ops final_modopt_eps (update_and_write r)"

definition persist_only :: "'t run \<Rightarrow> (unit, 't run) outcome" where
  "persist_only r = Done () (update_and_write r)"

text \<open>
  \<^verbatim>\<open>Optimizer::optimize_topology\<close>. The difference \<^verbatim>\<open>(int) tip_count - 3\<close> wraps round
  as 32-bit arithmetic does. The state handed in is the value of
  \<^verbatim>\<open>cm.search_state()\<close> at the call: the master thread works on that object, every other
  thread on a copy of it, and the model follows one of them.
\<close>

definition optimize_topology ::
  "nat \<Rightarrow> 't TreeInfo \<Rightarrow> Optimizer \<Rightarrow> SearchState \<Rightarrow> 't \<Rightarrow> (real, 't run) outcome" where
  "optimize_topology n ops opt cm_state t =
     (let r0 = set_params (\<lambda>s. s\<lparr>spr_params := (spr_params s)
                  \<lparr>lh_epsilon_brlen_full := opt_lh_epsilon opt,
                   lh_epsilon_brlen_triplet := opt_lh_epsilon_brlen_triplet opt\<rparr>\<rparr>)
                (begin_run cm_state t);
          resume_step = step (search_state r0);
          (l, r1) = call_loglh ops r0;
          r2 = set_loglh l r1
      in then_do (stage resume_step brlenOpt () (topology_brlenOpt ops) r2) (\<lambda>_ r3.
         then_do (stage resume_step modOpt1 () (topology_modOpt1 n ops) r3) (\<lambda>_ r4.
         let (tips, r5) = call_tip_count ops r4;
             radius_limit = min 22 (sint (tips - 3));
             radius_step = 5
         in
         then_do (if opt_spr_radius opt > 0
                  then Done () (set_params (\<lambda>s. s\<lparr>fast_spr_radius := opt_spr_radius opt\<rparr>) r5)
                  else stage resume_step radiusDetectOrNNI ()
                         (topology_radiusDetect n ops radius_limit radius_step) r5) (\<lambda>_ r6.
         then_do (stage resume_step modOpt2 () (topology_modOpt2 n ops opt) r6) (\<lambda>_ r7.
         then_do (stage resume_step fastSPR () (topology_fastSPR n ops opt) r7) (\<lambda>_ r8.
         then_do (stage resume_step modOpt3 () (topology_modOpt3 n ops radius_step) r8) (\<lambda>_ r9.
         then_do (stage resume_step slowSPR ()
                    (topology_slowSPR n ops opt radius_limit radius_step) r9) (\<lambda>_ r10.
         then_do (stage resume_step modOpt4 () (topology_modOpt4 n ops) r10) (\<lambda>_ r11.
         then_do (stage resume_step finish () persist_only r11) (\<lambda>_ r12.
         Done (loglh (search_state r12)) r12))))))))))"

section \<open>The radius heuristics\<close>

text \<open>
  \<^verbatim>\<open>(int) x\<close> truncates toward zero; where the truncated value is no \<^verbatim>\<open>int\<close> the
  conversion is undefined (\<open>None\<close>). \<open>spr_radius_limit_adaptive_b64\<close> is
  \<^verbatim>\<open>Optimizer::spr_radius_limit_adaptive\<close> compiled operation by operation,
  \<open>spr_radius_limit_adaptive_fused\<close> the same function compiled with the product and the
  sum fused into one operation with one rounding, which the language permits, and
  \<open>spr_radius_limit_adaptive\<close> the function read in exact arithmetic. In
  \<open>spr_radius_step_adaptive\<close> a division is reached only with a positive dividend, where
  \<^verbatim>\<open>/\<close> on \<^verbatim>\<open>int\<close> and \<open>div\<close> agree.
\<close>

definition trunc_int :: "real \<Rightarrow> int" where
  "trunc_int x = (if x \<ge> 0 then \<lfloor>x\<rfloor> else \<lceil>x\<rceil>)"

definition int_of_double :: "real \<Rightarrow> int option" where
  "int_of_double v = (if - 2147483649 < v \<and> v < 2147483648 then Some (trunc_int v) else None)"

definition spr_radius_limit_adaptive_b64 :: "real \<Rightarrow> int option" where
  "spr_radius_limit_adaptive_b64 difficulty =
     (if difficulty \<le> 1 / 2
      then int_of_double (round64 (round64 (30 * difficulty) + 5))
      else int_of_double (round64 (round64 (- 30 * difficulty) + 35)))"

definition spr_radius_limit_adaptive_fused :: "real \<Rightarrow> int option" where
  "spr_radius_limit_adaptive_fused difficulty =
     (if difficulty \<le> 1 / 2
      then int_of_double (round64 (30 * difficulty + 5))
      else int_of_double (round64 (- 30 * difficulty + 35)))"

definition spr_radius_limit_adaptive :: "real \<Rightarrow> int" where
  "spr_radius_limit_adaptive difficulty =
     (if difficulty \<le> 1 / 2
      then trunc_int (30 * difficulty + 5)
      else trunc_int (- 30 * difficulty + 35))"

definition spr_radius_step_adaptive :: "int \<Rightarrow> bool \<Rightarrow> int" where
  "spr_radius_step_adaptive spr_radius_max slow_spr =
     (if slow_spr
      then (if spr_radius_max \<le> 7 then spr_radius_max
            else if spr_radius_max \<le> 13 then spr_radius_max div 2 + 1
            else spr_radius_max div 3 + 1)
      else (if spr_radius_max \<le> 5 then spr_radius_max
            else if spr_radius_max \<le> 10 then spr_radius_max div 2 + 1
            else if spr_radius_max \<le> 15 then spr_radius_max div 3 + 1
            else spr_radius_max div 4 + 1))"

section \<open>The adaptive schedule\<close>

text \<open>
  \<^verbatim>\<open>impr_perc = (loglh - old_loglh) / fabs(loglh)\<close> divides by zero when the objective is
  zero; the quotient of two \<^verbatim>\<open>double\<close>s is then an infinity or not a number, and the
  comparisons that follow see it as such.
\<close>

datatype quotient = Finite real | PlusInf | MinusInf | NaN

definition fdiv :: "real \<Rightarrow> real \<Rightarrow> quotient" where
  "fdiv a b =
     (if b \<noteq> 0 then Finite (round64 (a / b))
      else if a > 0 then PlusInf
      else if a < 0 then MinusInf
      else NaN)"

fun q_ge :: "quotient \<Rightarrow> real \<Rightarrow> bool" where
  "q_ge (Finite x) c = (x \<ge> c)"
| "q_ge PlusInf c = True"
| "q_ge MinusInf c = False"
| "q_ge NaN c = False"

fun q_le :: "quotient \<Rightarrow> real \<Rightarrow> bool" where
  "q_le (Finite x) c = (x \<le> c)"
| "q_le PlusInf c = False"
| "q_le MinusInf c = True"
| "q_le NaN c = False"

definition widen_window :: "int \<Rightarrow> SearchState \<Rightarrow> SearchState" where
  "widen_window radius_step s =
     s\<lparr>spr_params := (spr_params s)
         \<lparr>radius_min := radius_min (spr_params s) + radius_step,
          radius_max := radius_max (spr_params s) + radius_step\<rparr>\<rparr>"

definition slide_window :: "int \<Rightarrow> SearchState \<Rightarrow> SearchState" where
  "slide_window radius_step s =
     s\<lparr>spr_params := (spr_params s)
         \<lparr>radius_min := radius_max (spr_params s) + 1,
          radius_max := radius_max (spr_params s) + radius_step\<rparr>\<rparr>"

definition adaptive_brlenOpt :: "'t TreeInfo \<Rightarrow> 't run \<Rightarrow> (unit, 't run) outcome" where
  "adaptive_brlenOpt ops r =
     (let r1 = update_and_write r;
          (l, r2) = call_optimize_branches ops fast_modopt_eps 1 r1
      in Done () (set_loglh l r2))"

definition adaptive_modOpt1 :: "nat \<Rightarrow> 't TreeInfo \<Rightarrow> 't run \<Rightarrow> (unit, 't run) outcome" where
  "adaptive_modOpt1 n ops r =
     then_do (loglh_optimize_model n ops fast_modopt_eps (update_and_write r))
       (\<lambda>_ r1. Done () (set_params (\<lambda>s. s\<lparr>iteration := 0\<rparr>) r1))"

definition adaptive_radiusDetectOrNNI :: "'t TreeInfo \<Rightarrow> bool \<Rightarrow> 't run \<Rightarrow> (unit, 't run) outcome" where
  "adaptive_radiusDetectOrNNI ops easy_or_difficult r =
     (let r1 = update_and_write r
      in Done () (if easy_or_difficult then nni ops r1 else r1))"

definition adaptive_modOpt2 :: "nat \<Rightarrow> 't TreeInfo \<Rightarrow> bool \<Rightarrow> 't run \<Rightarrow> (unit, 't run) outcome" where
  "adaptive_modOpt2 n ops easy_or_difficult r =
     (let r1 = update_and_write r
      in if easy_or_difficult
         then loglh_optimize_model n ops fast_modopt_eps r1
         else Done () r1)"

text \<open>
  One pass through the body of \<^verbatim>\<open>while (condition)\<close> in the stage \<^verbatim>\<open>fastSPR\<close>; the
  first component of its value is \<^verbatim>\<open>condition\<close> as the next test of the loop sees it.
  \<open>natural_condition\<close> is the value the assignment
  \<^verbatim>\<open>condition = impr && (impr_perc >= 1e-3)\<close> gives it.
\<close>

definition natural_condition :: "Optimizer \<Rightarrow> real \<Rightarrow> real \<Rightarrow> bool" where
  "natural_condition opt old_loglh new_loglh =
     (let impr_perc = fdiv (sub64 new_loglh old_loglh) \<bar>new_loglh\<bar>;
          impr = (sub64 new_loglh old_loglh > opt_lh_epsilon opt)
      in impr \<and> q_ge impr_perc (round64 (1 / 1000)))"

definition spr_then_nni :: "'t TreeInfo \<Rightarrow> int \<Rightarrow> 't run \<Rightarrow> real \<times> 't run" where
  "spr_then_nni ops radius_step r =
     (let r1 = update_and_write r;
          r2 = set_params next_iteration r1;
          old_loglh = loglh (search_state r2);
          (l, r3) = call_spr_round ops (spr_params (search_state r2)) r2;
          r4 = set_loglh l r3;
          r5 = (if radius_max (spr_params (search_state r4)) > 2 * radius_step
                then nni ops r4 else r4)
      in (old_loglh, r5))"

definition fast_round ::
  "'t TreeInfo \<Rightarrow> Optimizer \<Rightarrow> bool \<Rightarrow> int \<Rightarrow> int \<Rightarrow> unit \<Rightarrow> 't run \<Rightarrow> bool \<times> unit \<times> 't run" where
  "fast_round ops opt easy_or_difficult radius_limit radius_step u r =
     (let (old_loglh, r5) = spr_then_nni ops radius_step r;
          impr_perc = fdiv (sub64 (loglh (search_state r5)) old_loglh) \<bar>loglh (search_state r5)\<bar>;
          condition = natural_condition opt old_loglh (loglh (search_state r5))
      in if \<not> condition \<and> \<not> easy_or_difficult
            \<and> radius_max (spr_params (search_state r5)) = radius_step
            \<and> radius_step < radius_limit
         then (True, (), set_params (widen_window radius_step) r5)
         else if q_le impr_perc (round64 (1 / 100))
                 \<and> radius_min (spr_params (search_state r5)) + radius_step < radius_limit
         then (condition, (), set_params (widen_window radius_step) r5)
         else (condition, (), r5))"

text \<open>
  \<^verbatim>\<open>condition\<close> is initialised to \<^verbatim>\<open>true\<close>, so the first test of \<^verbatim>\<open>while (condition)\<close>
  succeeds and the loop is a do-while loop.
\<close>

definition fast_rounds ::
  "nat \<Rightarrow> 't TreeInfo \<Rightarrow> Optimizer \<Rightarrow> bool \<Rightarrow> int \<Rightarrow> int \<Rightarrow> 't run \<Rightarrow> (unit, 't run) outcome" where
  "fast_rounds n ops opt easy_or_difficult radius_limit radius_step r =
     do_while n (fast_round ops opt easy_or_difficult radius_limit radius_step) () r"

definition adaptive_fastSPR ::
  "nat \<Rightarrow> 't TreeInfo \<Rightarrow> Optimizer \<Rightarrow> bool \<Rightarrow> int \<Rightarrow> int \<Rightarrow> 't run \<Rightarrow> (unit, 't run) outcome" where
  "adaptive_fastSPR n ops opt easy_or_difficult radius_limit radius_step r =
     (let r1 = (if iteration (search_state r) = 0
                then set_params (\<lambda>s. s\<lparr>spr_params := (spr_params s)
                         \<lparr>thorough := False, radius_min := 1, radius_max := radius_step,
                          ntopol_keep := 0, subtree_cutoff := 0\<rparr>\<rparr>) r
                else r)
      in fast_rounds n ops opt easy_or_difficult radius_limit radius_step r1)"

text \<open>The stage \<^verbatim>\<open>modOpt3\<close> assigns the local \<^verbatim>\<open>radius_step\<close>, which is its value here.\<close>

definition adaptive_modOpt3 ::
  "nat \<Rightarrow> 't TreeInfo \<Rightarrow> Optimizer \<Rightarrow> int \<Rightarrow> 't run \<Rightarrow> (int, 't run) outcome" where
  "adaptive_modOpt3 n ops opt radius_limit r =
     then_do (loglh_optimize_model n ops interim_modopt_eps (update_and_write r))
       (\<lambda>_ r1.
          let radius_step = spr_radius_step_adaptive radius_limit True
          in Done radius_step (set_params (\<lambda>s. s\<lparr>iteration := 0,
               spr_params := reset_cutoff_info (loglh s) ((spr_params s)
                 \<lparr>thorough := True, radius_min := 1, radius_max := radius_step,
                  ntopol_keep := 20, subtree_cutoff := opt_spr_cutoff opt\<rparr>)\<rparr>) r1))"

definition slow_round ::
  "'t TreeInfo \<Rightarrow> Optimizer \<Rightarrow> int \<Rightarrow> int \<Rightarrow> unit \<Rightarrow> 't run \<Rightarrow> bool \<times> unit \<times> 't run" where
  "slow_round ops opt radius_limit radius_step u r =
     (let r1 = update_and_write r;
          r2 = set_params next_iteration r1;
          old_loglh = loglh (search_state r2);
          (l, r3) = call_spr_round ops (spr_params (search_state r2)) r2;
          r4 = set_loglh l r3;
          r5 = (if radius_min (spr_params (search_state r4)) > radius_step
                then nni ops r4 else r4);
          (l', r6) = call_optimize_branches ops (opt_lh_epsilon opt) 1 r5;
          r7 = set_loglh l' r6;
          impr = (sub64 l' old_loglh > opt_lh_epsilon opt);
          impr_perc = fdiv (sub64 l' old_loglh) \<bar>l'\<bar>;
          r8 = (if \<not> impr \<or> (radius_min (spr_params (search_state r7)) + radius_step < radius_limit
                              \<and> q_le impr_perc (round64 (1 / 1000)))
                then set_params (slide_window radius_step) r7
                else r7)
      in (radius_min (spr_params (search_state r8)) < radius_limit, (), r8))"

definition adaptive_slowSPR ::
  "nat \<Rightarrow> 't TreeInfo \<Rightarrow> Optimizer \<Rightarrow> int \<Rightarrow> int \<Rightarrow> 't run \<Rightarrow> (unit, 't run) outcome" where
  "adaptive_slowSPR n ops opt radius_limit radius_step r =
     do_while n (slow_round ops opt radius_limit radius_step) () r"

definition adaptive_modOpt4 :: "nat \<Rightarrow> 't TreeInfo \<Rightarrow> 't run \<Rightarrow> (unit, 't run) outcome" where
  "adaptive_modOpt4 n ops r = loglh_optimize_model n ops final_modopt_eps (update_and_write r)"

text \<open>
  \<^verbatim>\<open>Optimizer::optimize_topology_adaptive\<close>. The radius limit is the function as compiled
  operation by operation; where its conversion to \<^verbatim>\<open>int\<close> is undefined the schedule goes on
  with the least \<^verbatim>\<open>int\<close>, the value the conversion instruction of x86-64 delivers. The
  difference \<^verbatim>\<open>(int) tip_count - 3\<close> wraps round as 32-bit arithmetic does.
\<close>

definition int_or_least :: "int option \<Rightarrow> int" where
  "int_or_least v = (case v of Some i \<Rightarrow> i | None \<Rightarrow> - 2147483648)"

definition optimize_topology_adaptive ::
  "nat \<Rightarrow> 't TreeInfo \<Rightarrow> Optimizer \<Rightarrow> SearchState \<Rightarrow> 't \<Rightarrow> real \<Rightarrow> (real, 't run) outcome" where
  "optimize_topology_adaptive n ops opt cm_state t difficulty =
     (let r0 = set_params (\<lambda>s. s\<lparr>spr_params := (spr_params s)
                    \<lparr>lh_epsilon_brlen_full := opt_lh_epsilon opt,
                     lh_epsilon_brlen_triplet := opt_lh_epsilon_brlen_triplet opt\<rparr>,
                  nni_params := (nni_params s)
                    \<lparr>tolerance := opt_nni_tolerance opt, lh_epsilon := opt_nni_epsilon opt\<rparr>\<rparr>)
                (begin_run cm_state t);
          easy_or_difficult = (difficulty \<le> round64 (3 / 10) \<or> difficulty \<ge> round64 (7 / 10));
          resume_step = step (search_state r0);
          (l, r1) = call_loglh ops r0;
          r2 = set_loglh l r1;
          (l', r3) = call_loglh ops r2;
          r4 = set_loglh l' r3
      in then_do (stage resume_step brlenOpt () (adaptive_brlenOpt ops) r4) (\<lambda>_ r5.
         then_do (stage resume_step modOpt1 () (adaptive_modOpt1 n ops) r5) (\<lambda>_ r6.
         then_do (stage resume_step radiusDetectOrNNI ()
                    (adaptive_radiusDetectOrNNI ops easy_or_difficult) r6) (\<lambda>_ r7.
         then_do (stage resume_step modOpt2 () (adaptive_modOpt2 n ops easy_or_difficult) r7) (\<lambda>_ r8.
         let (tips, r9) = call_tip_count ops r8;
             radius_limit = min (int_or_least (spr_radius_limit_adaptive_b64 difficulty)) (sint (tips - 3));
             radius_step = spr_radius_step_adaptive radius_limit False
         in
         then_do (stage resume_step fastSPR ()
                    (adaptive_fastSPR n ops opt easy_or_difficult radius_limit radius_step) r9) (\<lambda>_ r10.
         then_do (stage resume_step modOpt3 radius_step
                    (adaptive_modOpt3 n ops opt radius_limit) r10) (\<lambda>radius_step' r11.
         then_do (stage resume_step slowSPR ()
                    (adaptive_slowSPR n ops opt radius_limit radius_step') r11) (\<lambda>_ r12.
         then_do (stage resume_step modOpt4 () (adaptive_modOpt4 n ops) r12) (\<lambda>_ r13.
         then_do (stage resume_step finish () persist_only r13) (\<lambda>_ r14.
         Done (loglh (search_state r14)) r14))))))))))"

section \<open>Evaluation of a fixed topology\<close>

text \<open>
  Modelled from the spec: the one-argument overload \<^verbatim>\<open>optimize_model(treeinfo)\<close> that
  \<^verbatim>\<open>evaluate\<close> calls is declared in the header; it is one model optimization at the
  configured main epsilon, the value the progress line beside the call prints.
\<close>

definition optimize_model_default :: "nat \<Rightarrow> 't TreeInfo \<Rightarrow> Optimizer \<Rightarrow> 't run \<Rightarrow> (real, 't run) outcome" where
  "optimize_model_default n ops opt r = optimize_model n ops (opt_lh_epsilon opt) r"

definition evaluate_brlenOpt :: "'t TreeInfo \<Rightarrow> 't run \<Rightarrow> (unit, 't run) outcome" where
  "evaluate_brlenOpt ops r =
     (let r1 = update_and_write r;
          (l, r2) = call_optimize_branches ops fast_modopt_eps 1 r1
      in Done () (set_loglh l r2))"

definition evaluate_modOpt1 :: "nat \<Rightarrow> 't TreeInfo \<Rightarrow> Optimizer \<Rightarrow> 't run \<Rightarrow> (unit, 't run) outcome" where
  "evaluate_modOpt1 n ops opt r =
     then_do (optimize_model_default n ops opt (update_and_write r))
       (\<lambda>l r1. Done () (set_loglh l r1))"

definition evaluate ::
  "nat \<Rightarrow> 't TreeInfo \<Rightarrow> Optimizer \<Rightarrow> SearchState \<Rightarrow> 't \<Rightarrow> (real, 't run) outcome" where
  "evaluate n ops opt cm_state t =
     (let r0 = begin_run cm_state t;
          (l, r1) = call_loglh ops r0;
          r2 = set_loglh l r1;
          resume_step = step (search_state r2)
      in then_do (stage resume_step brlenOpt () (evaluate_brlenOpt ops) r2) (\<lambda>_ r3.
         then_do (stage resume_step modOpt1 () (evaluate_modOpt1 n ops opt) r3) (\<lambda>_ r4.
         then_do (stage resume_step finish () persist_only r4) (\<lambda>_ r5.
         Done (loglh (search_state r5)) r5))))"


section \<open>Terms in which the properties are stated\<close>

text \<open>
  The tree after \<open>k\<close> calls of \<^verbatim>\<open>optimize_params_all\<close>; its objective; the improvement
  that the test of the loop of \<open>optimize_model\<close> computes after call \<open>k + 1\<close>, the
  difference \<^verbatim>\<open>new_loglh - cur_loglh\<close> of two \<^verbatim>\<open>double\<close>s; the events of \<open>k\<close> passes of
  the loop; and the state after the initial query and \<open>k\<close> passes.
\<close>

definition params_iter :: "'t TreeInfo \<Rightarrow> real \<Rightarrow> nat \<Rightarrow> 't \<Rightarrow> 't" where
  "params_iter ops eps k t = ((ti_optimize_params_all ops eps) ^^ k) t"

definition loglh_after :: "'t TreeInfo \<Rightarrow> real \<Rightarrow> 't \<Rightarrow> nat \<Rightarrow> real" where
  "loglh_after ops eps t k = ti_loglh ops (params_iter ops eps k t)"

definition improvement :: "'t TreeInfo \<Rightarrow> real \<Rightarrow> 't \<Rightarrow> nat \<Rightarrow> real" where
  "improvement ops eps t k = sub64 (loglh_after ops eps t (Suc k)) (loglh_after ops eps t k)"

definition model_calls :: "CheckpointStep option \<Rightarrow> real \<Rightarrow> nat \<Rightarrow> event list" where
  "model_calls tag eps k = concat (replicate k [(tag, OptimizeParamsAll eps), (tag, Loglh)])"

definition after_model_calls :: "'t TreeInfo \<Rightarrow> real \<Rightarrow> nat \<Rightarrow> 't run \<Rightarrow> 't run" where
  "after_model_calls ops eps k r =
     r\<lparr>treeinfo := params_iter ops eps k (treeinfo r),
       trace := trace r @ (in_stage r, Loglh) # model_calls (in_stage r) eps k\<rparr>"

text \<open>
  A tree whose state is its objective: model optimization halves it, every other
  operation leaves it as it is.
\<close>

definition halving_tree :: "real TreeInfo" where
  "halving_tree =
     \<lparr>ti_loglh = (\<lambda>t. t),
      ti_optimize_params_all = (\<lambda>eps t. t / 2),
      ti_optimize_branches = (\<lambda>eps smooth t. (t, t)),
      ti_spr_round = (\<lambda>p t. (t, t)),
      ti_nni_round = (\<lambda>p t. (t, t)),
      ti_tip_count = (\<lambda>t. 10)\<rparr>"

text \<open>
  A tree whose state is its objective and which model optimization takes to the
  objective 10, wherever it was.
\<close>

definition jumping_tree :: "real TreeInfo" where
  "jumping_tree =
     \<lparr>ti_loglh = (\<lambda>t. t),
      ti_optimize_params_all = (\<lambda>eps t. 10),
      ti_optimize_branches = (\<lambda>eps smooth t. (t, t)),
      ti_spr_round = (\<lambda>p t. (t, t)),
      ti_nni_round = (\<lambda>p t. (t, t)),
      ti_tip_count = (\<lambda>t. 10)\<rparr>"

text \<open>A checkpoint with the cursor at a given stage.\<close>

definition fresh_state :: "CheckpointStep \<Rightarrow> SearchState" where
  "fresh_state s =
     \<lparr>loglh = 0, iteration = 0, step = s,
      spr_params = \<lparr>thorough = False, radius_min = 0, radius_max = 0, ntopol_keep = 0,
                    subtree_cutoff = 0, lh_epsilon_brlen_full = 0, lh_epsilon_brlen_triplet = 0,
                    cutoff_info = 0\<rparr>,
      nni_params = \<lparr>tolerance = 0, lh_epsilon = 0\<rparr>,
      fast_spr_radius = 0\<rparr>"

text \<open>
  The actions a run performs inside the block of a stage, in order; the topology moves;
  the actions of branch-length and model optimization (persist calls and queries of the
  objective among them); the actions that leave the tree as it is.
\<close>

definition stage_actions :: "CheckpointStep \<Rightarrow> event list \<Rightarrow> action list" where
  "stage_actions s tr = map snd (filter (\<lambda>e. fst e = Some s) tr)"

fun is_move :: "action \<Rightarrow> bool" where
  "is_move (SprRound _) = True"
| "is_move (NniRound _) = True"
| "is_move _ = False"

definition no_moves :: "action set" where
  "no_moves = {a. \<not> is_move a}"

fun branch_or_model :: "action \<Rightarrow> bool" where
  "branch_or_model Persist = True"
| "branch_or_model Loglh = True"
| "branch_or_model (OptimizeParamsAll _) = True"
| "branch_or_model (OptimizeBranches _ _) = True"
| "branch_or_model _ = False"

definition quiet :: "action set" where
  "quiet = {Persist, Loglh, TipCount, SetParams}"

text \<open>
  \<open>persist_first_in s\<close>: the first thing the stage \<open>s\<close> does, if it does anything, is to
  persist. \<open>persists_first s\<close>: the stage \<open>s\<close> has done something, and the first thing it
  did was to persist. \<open>persist_before_mutation\<close>: in no stage does an operation that mutates the tree
  come before the first persist of that stage. \<open>skips_below resume\<close>: an event that
  mutates the tree belongs to a stage at or after the resume cursor.
\<close>

definition persist_first_in :: "CheckpointStep \<Rightarrow> event list \<Rightarrow> bool" where
  "persist_first_in s tr \<longleftrightarrow> stage_actions s tr = [] \<or> hd (stage_actions s tr) = Persist"

definition persist_before_mutation :: "event list \<Rightarrow> bool" where
  "persist_before_mutation tr \<longleftrightarrow>
     (\<forall>s. list_all (\<lambda>a. \<not> mutating a) (takeWhile (\<lambda>a. a \<noteq> Persist) (stage_actions s tr)))"


definition skips_below :: "CheckpointStep \<Rightarrow> event \<Rightarrow> bool" where
  "skips_below resume_step e \<longleftrightarrow>
     (mutating (snd e) \<longrightarrow>
        (case fst e of None \<Rightarrow> False | Some s \<Rightarrow> step_ord resume_step \<le> step_ord s))"

text \<open>
  \<open>extends A r r'\<close>: from \<open>r\<close> to \<open>r'\<close> the run stayed in its stage, left the cursor where
  it was, and appended events of that stage, with actions in \<open>A\<close>. \<open>well_traced\<close> collects what holds of the events of a
  schedule: \<open>X\<close> are the stages that may do something before they persist, \<open>E\<close> the
  events that may occur at all.
\<close>

definition extends :: "action set \<Rightarrow> 't run \<Rightarrow> 't run \<Rightarrow> bool" where
  "extends A r r' \<longleftrightarrow>
     in_stage r' = in_stage r \<and> step (search_state r') = step (search_state r) \<and>
     (\<exists>acts. trace r' = trace r @ map (Pair (in_stage r)) acts \<and> set acts \<subseteq> A)"

definition well_traced :: "CheckpointStep \<Rightarrow> CheckpointStep set \<Rightarrow> event set \<Rightarrow> event list \<Rightarrow> bool" where
  "well_traced resume_step X E tr \<longleftrightarrow>
     persist_before_mutation tr \<and> (\<forall>s. s \<notin> X \<longrightarrow> persist_first_in s tr) \<and>
     list_all (skips_below resume_step) tr \<and> set tr \<subseteq> E"

text \<open>
  Between two stages a run is in no stage. \<open>ok_outcome\<close> is what a stage, or a part of a
  schedule, hands on when it started between stages with well-formed events.
\<close>

definition between :: "CheckpointStep \<Rightarrow> CheckpointStep set \<Rightarrow> event set \<Rightarrow> 't run \<Rightarrow> bool" where
  "between resume_step X E r \<longleftrightarrow> in_stage r = None \<and> well_traced resume_step X E (trace r)"

definition ok_outcome ::
  "CheckpointStep \<Rightarrow> CheckpointStep set \<Rightarrow> event set \<Rightarrow> ('a, 't run) outcome \<Rightarrow> bool" where
  "ok_outcome resume_step X E x \<longleftrightarrow>
     well_traced resume_step X E (trace (final_state x)) \<and>
     (case x of Done a s \<Rightarrow> in_stage s = None | OutOfFuel s \<Rightarrow> True)"

text \<open>
  \<open>persisted_up_to resume S k\<close>: every stage in \<open>S\<close> from the resume cursor on and of an
  ordinal below \<open>k\<close> has persisted. \<open>executed_persisted\<close> is what a part of a schedule
  whose last stage has the ordinal \<open>k - 1\<close> hands on: if it returns, the stages below \<open>k\<close>
  have persisted, and if it does not, the stages up to the cursor have. \<open>ends_at_finish\<close>:
  if the schedule returns, the cursor is at \<^verbatim>\<open>finish\<close>.
\<close>

definition persisted_up_to :: "CheckpointStep \<Rightarrow> CheckpointStep set \<Rightarrow> nat \<Rightarrow> event list \<Rightarrow> bool" where
  "persisted_up_to resume_step S k tr \<longleftrightarrow>
     (\<forall>s\<in>S. step_ord resume_step \<le> step_ord s \<and> step_ord s < k \<longrightarrow> (Some s, Persist) \<in> set tr)"




text \<open>
  The events the adaptive schedule may produce: in the stage \<^verbatim>\<open>modOpt2\<close> nothing but the
  persist call and a model optimization with the fast epsilon. The events \<open>evaluate\<close> may
  produce: persist calls, queries of the objective, branch-length and model optimization.
\<close>

definition adaptive_events :: "event set" where
  "adaptive_events =
     {e. fst e = Some modOpt2 \<longrightarrow> snd e \<in> {Persist, Loglh, OptimizeParamsAll fast_modopt_eps}}"

definition evaluate_events :: "event set" where
  "evaluate_events = {e. branch_or_model (snd e)}"

text \<open>What \<open>evaluate\<close> leaves of a search state: everything but the objective and the cursor.\<close>

definition same_params :: "SearchState \<Rightarrow> SearchState \<Rightarrow> bool" where
  "same_params s s' \<longleftrightarrow>
     iteration s' = iteration s \<and> spr_params s' = spr_params s \<and>
     nni_params s' = nni_params s \<and> fast_spr_radius s' = fast_spr_radius s"

text \<open>Options for the examples: the main epsilon is 0.1 and the SPR radius is autodetected.\<close>

definition example_opt :: Optimizer where
  "example_opt =
     \<lparr>opt_lh_epsilon = 1 / 10, opt_lh_epsilon_brlen_triplet = 1000, opt_spr_radius = 0,
      opt_spr_cutoff = 1, opt_nni_epsilon = 1 / 10, opt_nni_tolerance = 1 / 10\<rparr>"



text \<open>
  \<open>tree_ops\<close>: the SPR, NNI and branch-length operations of a tree, with their
  arguments supplied. A tree whose SPR, NNI and branch-length operations never improve
  the objective: the value such an operation returns never exceeds the previous value,
  which is the objective the tree reports before the call and, when the call follows
  another such operation, the value that one returned. \<open>double_valued\<close>: the objective
  the tree reports is always a finite \<^verbatim>\<open>double\<close>.
\<close>

definition tree_ops :: "'t TreeInfo \<Rightarrow> ('t \<Rightarrow> real \<times> 't) set" where
  "tree_ops ops =
     {f. (\<exists>p. f = ti_spr_round ops p) \<or> (\<exists>p. f = ti_nni_round ops p) \<or>
         (\<exists>e sm. f = ti_optimize_branches ops e sm)}"

definition never_improves :: "'t TreeInfo \<Rightarrow> bool" where
  "never_improves ops \<longleftrightarrow>
     (\<forall>f\<in>tree_ops ops. \<forall>t. fst (f t) \<le> ti_loglh ops t) \<and>
     (\<forall>f\<in>tree_ops ops. \<forall>g\<in>tree_ops ops. \<forall>t. fst (g (snd (f t))) \<le> fst (f t))"

definition double_valued :: "'t TreeInfo \<Rightarrow> bool" where
  "double_valued ops \<longleftrightarrow> (\<forall>t. finite_double (ti_loglh ops t))"

text \<open>
  \<open>holds_previous\<close>: the objective in the search state is the previous value, that is,
  what the tree reports or what the operation that left the tree returned.
  \<open>detect_rounds\<close>: the number of SPR rounds of the stage \<^verbatim>\<open>radiusDetectOrNNI\<close>.
  \<open>ends_in Q f\<close>: with enough permitted repetitions \<open>f\<close> returns, always with the same
  value and state, and the state satisfies \<open>Q\<close>. \<open>grid_index\<close>: the finite \<^verbatim>\<open>double\<close>s are
  multiples of \<open>2 ^ - 1074\<close>, and \<open>grid_index x\<close> is the multiple that \<open>x\<close> is.
\<close>

definition holds_previous :: "'t TreeInfo \<Rightarrow> 't run \<Rightarrow> bool" where
  "holds_previous ops r \<longleftrightarrow>
     loglh (search_state r) = ti_loglh ops (treeinfo r) \<or>
     (\<exists>f\<in>tree_ops ops. \<exists>t. loglh (search_state r) = fst (f t) \<and> treeinfo r = snd (f t))"

fun is_spr_round :: "action \<Rightarrow> bool" where
  "is_spr_round (SprRound _) = True"
| "is_spr_round _ = False"

definition detect_rounds :: "event list \<Rightarrow> nat" where
  "detect_rounds tr = length (filter is_spr_round (stage_actions radiusDetectOrNNI tr))"

definition ends_in :: "('s \<Rightarrow> bool) \<Rightarrow> (nat \<Rightarrow> ('a, 's) outcome) \<Rightarrow> bool" where
  "ends_in Q f \<longleftrightarrow> (\<exists>N a s. (\<forall>n\<ge>N. f n = Done a s) \<and> Q s)"

definition grid_index :: "real \<Rightarrow> int" where
  "grid_index x = \<lfloor>x * 2 ^ 1074\<rfloor>"

text \<open>
  A tree with two states: model optimization takes it from the objective \<open>- 8\<close> to the
  objective \<open>- 4\<close>, where it stays, and the SPR, NNI and branch-length operations leave it
  as it is.
\<close>

definition settling_tree :: "bool TreeInfo" where
  "settling_tree =
     \<lparr>ti_loglh = (\<lambda>t. if t then - 4 else - 8),
      ti_optimize_params_all = (\<lambda>eps t. True),
      ti_optimize_branches = (\<lambda>eps smooth t. (if t then - 4 else - 8, t)),
      ti_spr_round = (\<lambda>p t. (if t then - 4 else - 8, t)),
      ti_nni_round = (\<lambda>p t. (if t then - 4 else - 8, t)),
      ti_tip_count = (\<lambda>t. 10)\<rparr>"

text \<open>What the termination argument carries through a run.\<close>

definition steady :: "'t TreeInfo \<Rightarrow> nat \<Rightarrow> CheckpointStep option \<Rightarrow> 't run \<Rightarrow> bool" where
  "steady ops c tag r \<longleftrightarrow> holds_previous ops r \<and> detect_rounds (trace r) \<le> c \<and> in_stage r = tag"

text \<open>The \<^verbatim>\<open>double\<close> nearest to one third, \<^verbatim>\<open>0x1.5555555555555p-2\<close>.\<close>

definition third :: real where
  "third = 6004799503160661 / 18014398509481984"

section \<open>Rounding\<close>

lemma binade_numeral:
  "binade (numeral k) x =
     (if x \<ge> 2 then binade (pred_numeral k) (x / 2) + 1
      else if x < 1 then binade (pred_numeral k) (2 * x) - 1
      else 0)"
  by (simp add: numeral_eq_Suc)

lemmas b64_eval =
  sub64_def round64_def round_half_even_def ulp64_def pow2_def binade_numeral

lemma pow2_pos [simp]: "0 < pow2 e"
  by (simp add: pow2_def)

lemma ulp64_pos [simp]: "0 < ulp64 x"
  by (simp add: ulp64_def)

lemma round_half_even_nonpos: "x \<le> 0 \<Longrightarrow> round_half_even x \<le> 0"
proof -
  assume x: "x \<le> 0"
  have f: "\<lfloor>x\<rfloor> \<le> 0" using x by (simp add: floor_le_zero)
  show ?thesis
  proof (cases "x - of_int \<lfloor>x\<rfloor> < 1 / 2")
    case True
    then show ?thesis using f by (simp add: round_half_even_def)
  next
    case False
    then have "of_int \<lfloor>x\<rfloor> + 1 / 2 \<le> x" by simp
    then have "of_int \<lfloor>x\<rfloor> < (0::real)" using x by linarith
    then have "\<lfloor>x\<rfloor> < 0" by simp
    then show ?thesis by (simp add: round_half_even_def)
  qed
qed

lemma round64_nonpos: "x \<le> 0 \<Longrightarrow> round64 x \<le> 0"
proof -
  assume x: "x \<le> 0"
  have "x / ulp64 x \<le> 0" using x by (simp add: divide_nonpos_pos)
  then have "round_half_even (x / ulp64 x) \<le> 0" by (rule round_half_even_nonpos)
  then have "of_int (round_half_even (x / ulp64 x)) * ulp64 x \<le> 0"
    using ulp64_pos[of x] by (simp add: mult_le_0_iff less_imp_le)
  then show ?thesis by (simp add: round64_def)
qed

lemma sub64_positive: "sub64 a b > 0 \<Longrightarrow> b < a"
  using round64_nonpos[of "a - b"] by (auto simp: sub64_def not_le[symmetric])

lemma pow2_grid:
  assumes "- 1074 \<le> e"
  shows "pow2 e = 2 ^ nat (e + 1074) / 2 ^ 1074"
proof (cases "0 \<le> e")
  case True
  then have "nat (e + 1074) = nat e + 1074" by simp
  then show ?thesis using True by (simp add: pow2_def power_add)
next
  case False
  define m where "m = nat (- e)"
  have m: "m \<le> 1074" "nat (e + 1074) = 1074 - m" using assms False by (simp_all add: m_def)
  have "(2::real) ^ (1074 - m) = 2 ^ 1074 / 2 ^ m"
    using m(1) by (simp add: power_diff)
  then show ?thesis using False by (simp add: pow2_def m(2) m_def[symmetric])
qed

lemma ulp64_grid: "\<exists>j::nat. ulp64 x = 2 ^ j / 2 ^ 1074"
proof -
  have "- 1074 \<le> max (binade 1100 \<bar>x\<bar>) (- 1022) - 52" by linarith
  then show ?thesis unfolding ulp64_def using pow2_grid by blast
qed

lemma double_grid:
  assumes "finite_double x"
  shows "\<exists>k::int. x = of_int k / 2 ^ 1074"
proof (cases "x = 0")
  case True
  then show ?thesis by (intro exI[of _ 0]) simp
next
  case False
  obtain j :: nat where j: "ulp64 x = 2 ^ j / 2 ^ 1074" using ulp64_grid by blast
  have "x = of_int (round_half_even (x / ulp64 x)) * ulp64 x"
    using assms False by (simp add: finite_double_def round64_def)
  then have "x = of_int (round_half_even (x / ulp64 x) * 2 ^ j) / 2 ^ 1074"
    by (simp add: j)
  then show ?thesis by blast
qed

lemma grid_index_less:
  assumes "finite_double x" "finite_double y" "x < y"
  shows "grid_index x < grid_index y"
proof -
  obtain k l :: int where k: "x = of_int k / 2 ^ 1074" and l: "y = of_int l / 2 ^ 1074"
    using double_grid assms(1,2) by blast
  have "grid_index x = k" "grid_index y = l"
    by (simp_all add: grid_index_def k l)
  moreover have "k < l"
    using assms(3) by (simp add: k l divide_less_cancel)
  ultimately show ?thesis by simp
qed

lemma grid_index_bounded:
  assumes "finite_double x"
  shows "grid_index x \<le> 2 ^ 2098"
proof -
  have "x \<le> max_double" using assms unfolding finite_double_def by linarith
  also have "max_double \<le> 2 ^ 1024" by (simp add: max_double_def)
  finally have "x * 2 ^ 1074 \<le> 2 ^ 1024 * 2 ^ 1074" by simp
  also have "\<dots> = of_int (2 ^ 2098)" by (simp add: power_add[symmetric])
  finally show ?thesis unfolding grid_index_def by (simp add: floor_le_iff del: of_int_power)
qed

lemma no_infinite_ascent:
  assumes d: "\<And>k. finite_double (f k)" and up: "\<And>k. f k < f (Suc k)"
  shows False
proof -
  have "grid_index (f 0) + int k \<le> grid_index (f k)" for k
  proof (induction k)
    case 0
    show ?case by simp
  next
    case (Suc k)
    have "grid_index (f k) < grid_index (f (Suc k))"
      by (rule grid_index_less[OF d d up])
    then show ?case using Suc by simp
  qed
  then have a: "grid_index (f 0) + int k \<le> grid_index (f k)" for k .
  obtain B :: int where B: "\<And>x. finite_double x \<Longrightarrow> grid_index x \<le> B"
    using grid_index_bounded by blast
  define n where "n = nat (B - grid_index (f 0)) + 1"
  have "B < grid_index (f 0) + int n" by (simp add: n_def)
  then show False using a[of n] B[OF d[of n]] by linarith
qed

section \<open>Loops and model optimization\<close>

lemma do_while_final:
  assumes "\<And>a s. I s \<Longrightarrow> I (snd (snd (body a s)))" and "I s"
  shows "I (final_state (do_while n body a s))"
  using assms(2)
proof (induction n arbitrary: a s)
  case 0
  then show ?case using assms(1)[of s a] by (simp add: split_beta Let_def)
next
  case (Suc n)
  then show ?case using assms(1)[of s a] by (simp add: split_beta Let_def)
qed

lemma params_iter_0 [simp]: "params_iter ops eps 0 t = t"
  by (simp add: params_iter_def)

lemma params_iter_Suc_shift:
  "params_iter ops eps (Suc k) t = params_iter ops eps k (ti_optimize_params_all ops eps t)"
  by (simp add: params_iter_def funpow_swap1)

lemma loglh_after_Suc_shift:
  "loglh_after ops eps t (Suc k) = loglh_after ops eps (ti_optimize_params_all ops eps t) k"
  by (simp add: loglh_after_def params_iter_Suc_shift)

lemma improvement_Suc_shift:
  "improvement ops eps t (Suc k) = improvement ops eps (ti_optimize_params_all ops eps t) k"
  by (simp add: improvement_def loglh_after_Suc_shift)

lemma model_calls_Suc: "model_calls tag eps (Suc k) = (tag, OptimizeParamsAll eps) # (tag, Loglh) # model_calls tag eps k"
  by (simp add: model_calls_def)

lemma optimize_model_pass_eq:
  "optimize_model_pass ops eps cur r =
     (sub64 (ti_loglh ops (ti_optimize_params_all ops eps (treeinfo r))) cur > eps,
      ti_loglh ops (ti_optimize_params_all ops eps (treeinfo r)),
      r\<lparr>treeinfo := ti_optimize_params_all ops eps (treeinfo r),
        trace := trace r @ [(in_stage r, OptimizeParamsAll eps), (in_stage r, Loglh)]\<rparr>)"
  by (simp add: optimize_model_pass_def call_loglh_def call_optimize_params_all_def emit_def)

lemma loop_done:
  "\<lbrakk>\<forall>i<k. improvement ops eps (treeinfo r) i > eps;
    \<not> improvement ops eps (treeinfo r) k > eps; k \<le> n\<rbrakk>
   \<Longrightarrow> do_while n (optimize_model_pass ops eps) (ti_loglh ops (treeinfo r)) r =
       Done (loglh_after ops eps (treeinfo r) (Suc k))
            (r\<lparr>treeinfo := params_iter ops eps (Suc k) (treeinfo r),
               trace := trace r @ model_calls (in_stage r) eps (Suc k)\<rparr>)"
proof (induction k arbitrary: n r)
  case 0
  then show ?case
    by (cases n) (simp_all add: optimize_model_pass_eq improvement_def loglh_after_def params_iter_def model_calls_def)
next
  case (Suc k)
  let ?r2 = "snd (snd (optimize_model_pass ops eps (ti_loglh ops (treeinfo r)) r))"
  have t2: "treeinfo ?r2 = ti_optimize_params_all ops eps (treeinfo r)"
    by (simp add: optimize_model_pass_eq)
  obtain m where n: "n = Suc m" and km: "k \<le> m" using Suc.prems(3) by (cases n) auto
  have first: "improvement ops eps (treeinfo r) 0 > eps"
    using Suc.prems(1) by blast
  have a: "\<forall>i<k. improvement ops eps (treeinfo ?r2) i > eps"
    using Suc.prems(1) by (auto simp: t2 loglh_after_Suc_shift[symmetric] improvement_Suc_shift[symmetric])
  have b: "\<not> improvement ops eps (treeinfo ?r2) k > eps"
    using Suc.prems(2) by (simp add: t2 loglh_after_Suc_shift[symmetric] improvement_Suc_shift[symmetric])
  have step: "do_while n (optimize_model_pass ops eps) (ti_loglh ops (treeinfo r)) r =
      do_while m (optimize_model_pass ops eps) (ti_loglh ops (treeinfo ?r2)) ?r2"
    using first by (simp add: n optimize_model_pass_eq improvement_def loglh_after_def params_iter_def)
  show ?case
    unfolding step Suc.IH[OF a b km]
    by (simp add: optimize_model_pass_eq loglh_after_Suc_shift[symmetric] improvement_Suc_shift[symmetric] params_iter_Suc_shift[symmetric]
          model_calls_Suc)
qed

lemma loop_out_of_fuel:
  "\<forall>i\<le>n. improvement ops eps (treeinfo r) i > eps
   \<Longrightarrow> do_while n (optimize_model_pass ops eps) (ti_loglh ops (treeinfo r)) r =
       OutOfFuel (r\<lparr>treeinfo := params_iter ops eps (Suc n) (treeinfo r),
               trace := trace r @ model_calls (in_stage r) eps (Suc n)\<rparr>)"
proof (induction n arbitrary: r)
  case 0
  then show ?case
    by (simp add: optimize_model_pass_eq improvement_def loglh_after_def params_iter_def model_calls_def)
next
  case (Suc n)
  let ?r2 = "snd (snd (optimize_model_pass ops eps (ti_loglh ops (treeinfo r)) r))"
  have t2: "treeinfo ?r2 = ti_optimize_params_all ops eps (treeinfo r)"
    by (simp add: optimize_model_pass_eq)
  have first: "improvement ops eps (treeinfo r) 0 > eps"
    using Suc.prems by blast
  have a: "\<forall>i\<le>n. improvement ops eps (treeinfo ?r2) i > eps"
    using Suc.prems by (auto simp: t2 loglh_after_Suc_shift[symmetric] improvement_Suc_shift[symmetric])
  have step: "do_while (Suc n) (optimize_model_pass ops eps) (ti_loglh ops (treeinfo r)) r =
      do_while n (optimize_model_pass ops eps) (ti_loglh ops (treeinfo ?r2)) ?r2"
    using first by (simp add: optimize_model_pass_eq improvement_def loglh_after_def params_iter_def)
  show ?case
    unfolding step Suc.IH[OF a]
    by (simp add: optimize_model_pass_eq params_iter_Suc_shift[symmetric] model_calls_Suc)
qed

lemma optimize_model_done:
  assumes "\<forall>i<k. improvement ops eps (treeinfo r) i > eps"
    and "\<not> improvement ops eps (treeinfo r) k > eps"
    and "k \<le> n"
  shows "optimize_model n ops eps r =
           Done (loglh_after ops eps (treeinfo r) (Suc k)) (after_model_calls ops eps (Suc k) r)"
proof -
  let ?r0 = "emit Loglh r"
  have t0: "treeinfo ?r0 = treeinfo r" by (simp add: emit_def)
  have "optimize_model n ops eps r = do_while n (optimize_model_pass ops eps) (ti_loglh ops (treeinfo ?r0)) ?r0"
    by (simp add: optimize_model_def call_loglh_def t0)
  also have "\<dots> = Done (loglh_after ops eps (treeinfo ?r0) (Suc k))
            (?r0\<lparr>treeinfo := params_iter ops eps (Suc k) (treeinfo ?r0),
               trace := trace ?r0 @ model_calls (in_stage ?r0) eps (Suc k)\<rparr>)"
    using assms by (intro loop_done) (simp_all add: t0)
  finally show ?thesis
    by (simp add: after_model_calls_def emit_def)
qed

lemma optimize_model_out_of_fuel:
  assumes "\<forall>i\<le>n. improvement ops eps (treeinfo r) i > eps"
  shows "optimize_model n ops eps r = OutOfFuel (after_model_calls ops eps (Suc n) r)"
proof -
  let ?r0 = "emit Loglh r"
  have t0: "treeinfo ?r0 = treeinfo r" by (simp add: emit_def)
  have "optimize_model n ops eps r = do_while n (optimize_model_pass ops eps) (ti_loglh ops (treeinfo ?r0)) ?r0"
    by (simp add: optimize_model_def call_loglh_def t0)
  also have "\<dots> = OutOfFuel
            (?r0\<lparr>treeinfo := params_iter ops eps (Suc n) (treeinfo ?r0),
               trace := trace ?r0 @ model_calls (in_stage ?r0) eps (Suc n)\<rparr>)"
    using assms by (intro loop_out_of_fuel) (simp_all add: t0)
  finally show ?thesis
    by (simp add: after_model_calls_def emit_def)
qed

lemma first_small_improvement:
  fixes f :: "nat \<Rightarrow> real"
  assumes "\<not> (\<forall>i\<le>n. f i > eps)"
  obtains k where "k \<le> n" "\<forall>i<k. f i > eps" "\<not> f k > eps"
proof -
  define k where "k = (LEAST i. \<not> f i > eps)"
  from assms obtain j where j: "j \<le> n" "\<not> f j > eps" by auto
  have 1: "\<not> f k > eps" unfolding k_def using j(2) by (rule LeastI)
  have 2: "k \<le> j" unfolding k_def using j(2) by (rule Least_le)
  have 3: "\<forall>i<k. f i > eps" unfolding k_def using not_less_Least by blast
  show ?thesis using that[of k] 1 2 3 j(1) by simp
qed

text \<open>
  C4. \<open>optimize_model\<close> queries the objective, then calls \<^verbatim>\<open>optimize_params_all\<close> and
  queries again, pass after pass. The improvement of a pass is the difference
  \<^verbatim>\<open>new_loglh - cur_loglh\<close> of the objective queried after the call and the one queried
  before it, as the subtraction of the two \<^verbatim>\<open>double\<close>s computes it. \<open>optimize_model\<close>
  returns exactly when, for the first time, the improvement is no more than epsilon (the
  first \<open>k\<close> passes improved by more, pass \<open>k + 1\<close> did not), and it returns the objective
  queried after that last call, with the tree and the event list of \<open>k + 1\<close> passes.
\<close>

theorem optimize_model_stops_exactly:
  "(optimize_model n ops eps r = Done v r') =
     (\<exists>k\<le>n. (\<forall>i<k. improvement ops eps (treeinfo r) i > eps)
          \<and> improvement ops eps (treeinfo r) k \<le> eps
          \<and> v = loglh_after ops eps (treeinfo r) (Suc k)
          \<and> r' = after_model_calls ops eps (Suc k) r)"
  (is "?L = ?R")
proof
  assume ?R
  then show ?L using optimize_model_done[where ops=ops and eps=eps and r=r and n=n] by (auto simp: not_less)
next
  assume L: ?L
  let ?f = "\<lambda>i. improvement ops eps (treeinfo r) i"
  have "\<not> (\<forall>i\<le>n. ?f i > eps)"
    using optimize_model_out_of_fuel[where ops=ops and eps=eps and r=r and n=n] L by auto
  then obtain k where k: "k \<le> n" "\<forall>i<k. ?f i > eps" "\<not> ?f k > eps"
    by (rule first_small_improvement)
  from optimize_model_done[OF k(2) k(3) k(1)] L
  have "v = loglh_after ops eps (treeinfo r) (Suc k)" "r' = after_model_calls ops eps (Suc k) r"
    by simp_all
  with k show ?R by (auto simp: not_less)
qed

theorem optimize_model_stops_exactly_witness:
  "optimize_model 5 halving_tree (3/2) (begin_run (fresh_state brlenOpt) (-8)) =
     Done (-1) ((begin_run (fresh_state brlenOpt) (-8))
        \<lparr>treeinfo := -1,
         trace := [(None, Loglh), (None, OptimizeParamsAll (3/2)), (None, Loglh),
                   (None, OptimizeParamsAll (3/2)), (None, Loglh),
                   (None, OptimizeParamsAll (3/2)), (None, Loglh)]\<rparr>)"
proof -
  let ?r = "begin_run (fresh_state brlenOpt) (-8) :: real run"
  have "\<exists>k\<le>5. (\<forall>i<k. improvement halving_tree (3/2) (treeinfo ?r) i > 3/2)
          \<and> improvement halving_tree (3/2) (treeinfo ?r) k \<le> 3/2
          \<and> (-1::real) = loglh_after halving_tree (3/2) (treeinfo ?r) (Suc k)
          \<and> ?r\<lparr>treeinfo := -1,
         trace := [(None, Loglh), (None, OptimizeParamsAll (3/2)), (None, Loglh),
                   (None, OptimizeParamsAll (3/2)), (None, Loglh),
                   (None, OptimizeParamsAll (3/2)), (None, Loglh)]\<rparr> = after_model_calls halving_tree (3/2) (Suc k) ?r"
    by (rule exI[of _ 2])
       (simp add: improvement_def loglh_after_def params_iter_def halving_tree_def begin_run_def
          after_model_calls_def model_calls_def numeral_2_eq_2 All_less_Suc b64_eval)
  then show ?thesis
    using optimize_model_stops_exactly[where n=5 and ops=halving_tree and eps="3/2" and r="?r" and v="-1"] by simp
qed

text \<open>
  The improvement is the rounded difference. On \<open>jumping_tree\<close>, from the objective
  \<open>- 2 ^ - 60\<close> the first call of \<^verbatim>\<open>optimize_params_all\<close> gains a little more than 10; the
  difference of the two \<^verbatim>\<open>double\<close>s is 10, which is not above an epsilon of 10, and
  \<open>optimize_model\<close> returns after one pass.
\<close>

lemma optimize_model_rounded_difference:
  "(10 :: real) < 10 - (- (1 / 2 ^ 60)) \<and>
   improvement jumping_tree 10 (- (1 / 2 ^ 60)) 0 = 10 \<and>
   optimize_model n jumping_tree 10 (begin_run (fresh_state brlenOpt) (- (1 / 2 ^ 60))) =
     Done 10 ((begin_run (fresh_state brlenOpt) (- (1 / 2 ^ 60)))
        \<lparr>treeinfo := 10,
         trace := [(None, Loglh), (None, OptimizeParamsAll 10), (None, Loglh)]\<rparr>)"
proof -
  let ?r = "begin_run (fresh_state brlenOpt) (- (1 / 2 ^ 60)) :: real run"
  have i: "improvement jumping_tree 10 (- (1 / 2 ^ 60)) 0 = 10"
    by (simp add: improvement_def loglh_after_def params_iter_def jumping_tree_def b64_eval)
  have t: "treeinfo ?r = - (1 / 2 ^ 60)" by (simp add: begin_run_def)
  have p1: "\<forall>i<0. improvement jumping_tree 10 (treeinfo ?r) i > 10" by simp
  have p2: "\<not> improvement jumping_tree 10 (treeinfo ?r) 0 > 10" unfolding t i by simp
  have "optimize_model n jumping_tree 10 ?r =
          Done (loglh_after jumping_tree 10 (treeinfo ?r) (Suc 0))
            (after_model_calls jumping_tree 10 (Suc 0) ?r)"
    using p1 p2 by (rule optimize_model_done) simp
  then show ?thesis
    using i
    by (simp add: loglh_after_def params_iter_def jumping_tree_def after_model_calls_def
          model_calls_def begin_run_def)
qed

text \<open>
  C9. Whatever the epsilon, the tree and the number of permitted repetitions, a call of
  \<open>optimize_model\<close> begins with the query of the objective and one call of
  \<^verbatim>\<open>optimize_params_all\<close>, and the tree it leaves has been through at least one such call.
\<close>

theorem optimize_model_calls_params_all_once:
  "\<exists>es. trace (final_state (optimize_model n ops eps r)) =
           trace r @ (in_stage r, Loglh) # (in_stage r, OptimizeParamsAll eps) # es
      \<and> treeinfo (final_state (optimize_model n ops eps r)) =
           params_iter ops eps (Suc (length es div 2)) (treeinfo r)"
proof (cases "\<forall>i\<le>n. improvement ops eps (treeinfo r) i > eps")
  case True
  show ?thesis
    unfolding optimize_model_out_of_fuel[OF True]
    by (simp add: after_model_calls_def model_calls_Suc model_calls_def length_concat sum_list_replicate)
next
  case False
  then obtain k where k: "k \<le> n"
      "\<forall>i<k. improvement ops eps (treeinfo r) i > eps"
      "\<not> improvement ops eps (treeinfo r) k > eps"
    by (rule first_small_improvement)
  show ?thesis
    unfolding optimize_model_done[OF k(2) k(3) k(1)]
    by (simp add: after_model_calls_def model_calls_Suc model_calls_def length_concat sum_list_replicate)
qed

section \<open>Events of a run\<close>

lemma stage_actions_append [simp]:
  "stage_actions s (tr @ es) = stage_actions s tr @ stage_actions s es"
  by (simp add: stage_actions_def)

lemma stage_actions_Nil [simp]: "stage_actions s [] = []"
  by (simp add: stage_actions_def)

lemma stage_actions_Cons [simp]:
  "stage_actions s ((tag, a) # es) = (if tag = Some s then a # stage_actions s es else stage_actions s es)"
  by (simp add: stage_actions_def)

lemma stage_actions_tagged [simp]:
  "stage_actions s (map (Pair tag) acts) = (if tag = Some s then acts else [])"
  by (induction acts) auto

lemma takeWhile_persist_block:
  "takeWhile (\<lambda>a. a \<noteq> Persist) (xs @ Persist # ys) = takeWhile (\<lambda>a. a \<noteq> Persist) xs"
  by (induction xs) auto

lemma set_takeWhile_append_subset:
  "set (takeWhile P (xs @ ys)) \<subseteq> set (takeWhile P xs) \<union> set ys"
  by (induction xs) (auto dest: set_takeWhileD)

lemma well_traced_Nil [simp]: "well_traced resume X A []"
  by (simp add: well_traced_def persist_before_mutation_def persist_first_in_def)

lemma well_traced_persist_block:
  assumes "well_traced resume X E tr" and "step_ord resume \<le> step_ord s"
    and "(Some s, Persist) \<in> E" and "Pair (Some s) ` set acts \<subseteq> E"
  shows "well_traced resume X E (tr @ (Some s, Persist) # map (Pair (Some s)) acts)"
proof -
  have 1: "persist_before_mutation (tr @ (Some s, Persist) # map (Pair (Some s)) acts)"
    using assms(1) by (auto simp: well_traced_def persist_before_mutation_def takeWhile_persist_block)
  have 2: "persist_first_in s' (tr @ (Some s, Persist) # map (Pair (Some s)) acts)"
    if "s' \<notin> X" for s'
    using assms(1) that by (auto simp: well_traced_def persist_first_in_def hd_append)
  have 3: "list_all (skips_below resume) (tr @ (Some s, Persist) # map (Pair (Some s)) acts)"
    using assms(1,2) by (auto simp: well_traced_def list_all_iff skips_below_def)
  have 4: "set (tr @ (Some s, Persist) # map (Pair (Some s)) acts) \<subseteq> E"
    using assms(1,3,4) by (auto simp: well_traced_def)
  show ?thesis using 1 2 3 4 by (simp add: well_traced_def)
qed

lemma well_traced_quiet_block:
  assumes "well_traced resume X E tr" and "set acts \<subseteq> quiet" and "Pair tag ` set acts \<subseteq> E"
    and "tag = None \<or> (\<exists>s\<in>X. tag = Some s)"
  shows "well_traced resume X E (tr @ map (Pair tag) acts)"
proof -
  have q: "\<not> mutating a" if "a \<in> set acts" for a
    using assms(2) that by (auto simp: quiet_def)
  have 1: "persist_before_mutation (tr @ map (Pair tag) acts)"
    unfolding persist_before_mutation_def list_all_iff
  proof (intro allI ballI)
    fix s a
    assume a: "a \<in> set (takeWhile (\<lambda>a. a \<noteq> Persist) (stage_actions s (tr @ map (Pair tag) acts)))"
    then have "a \<in> set (takeWhile (\<lambda>a. a \<noteq> Persist) (stage_actions s tr)) \<or> a \<in> set acts"
      using set_takeWhile_append_subset[of "\<lambda>a. a \<noteq> Persist" "stage_actions s tr" acts]
      by (auto split: if_splits)
    then show "\<not> mutating a"
      using assms(1) q by (auto simp: well_traced_def persist_before_mutation_def list_all_iff)
  qed
  have 2: "persist_first_in s' (tr @ map (Pair tag) acts)" if "s' \<notin> X" for s'
    using assms(1,4) that by (auto simp: well_traced_def persist_first_in_def)
  have 3: "list_all (skips_below resume) (tr @ map (Pair tag) acts)"
    using assms(1) q by (auto simp: well_traced_def list_all_iff skips_below_def)
  have 4: "set (tr @ map (Pair tag) acts) \<subseteq> E"
    using assms(1,3) by (auto simp: well_traced_def)
  show ?thesis using 1 2 3 4 by (simp add: well_traced_def)
qed

section \<open>How the operations extend the events\<close>


lemma extends_refl [simp]: "extends A r r"
  by (auto simp: extends_def intro: exI[of _ "[]"])

lemma extends_trans: "extends A r r' \<Longrightarrow> extends A r' r'' \<Longrightarrow> extends A r r''"
proof -
  assume a: "extends A r r'" and b: "extends A r' r''"
  from a obtain xs where xs: "trace r' = trace r @ map (Pair (in_stage r)) xs" "set xs \<subseteq> A"
    and s1: "in_stage r' = in_stage r" and c1: "step (search_state r') = step (search_state r)"
    by (auto simp: extends_def)
  from b obtain ys where ys: "trace r'' = trace r' @ map (Pair (in_stage r')) ys" "set ys \<subseteq> A"
    and s2: "in_stage r'' = in_stage r'" and c2: "step (search_state r'') = step (search_state r')"
    by (auto simp: extends_def)
  have "trace r'' = trace r @ map (Pair (in_stage r)) (xs @ ys)" "set (xs @ ys) \<subseteq> A"
    using xs ys s1 by auto
  then have "\<exists>acts. trace r'' = trace r @ map (Pair (in_stage r)) acts \<and> set acts \<subseteq> A"
    by blast
  then show ?thesis unfolding extends_def using s1 s2 c1 c2 by simp
qed


lemma extends_emit: "a \<in> A \<Longrightarrow> extends A r0 r \<Longrightarrow> extends A r0 (emit a r)"
  by (rule extends_trans[of A r0 r]) (auto simp: extends_def emit_def intro: exI[of _ "[a]"])

lemma extends_update_and_write: "Persist \<in> A \<Longrightarrow> extends A r0 r \<Longrightarrow> extends A r0 (update_and_write r)"
  by (simp add: update_and_write_def extends_emit)

lemma extends_set_loglh: "extends A r0 r \<Longrightarrow> extends A r0 (set_loglh l r)"
  by (simp add: set_loglh_def extends_def)

lemma extends_set_params:
  "SetParams \<in> A \<Longrightarrow> (\<And>s. step (f s) = step s) \<Longrightarrow> extends A r0 r \<Longrightarrow> extends A r0 (set_params f r)"
  unfolding set_params_def by (rule extends_emit) (simp_all add: extends_def)

lemma step_next_iteration [simp]: "step (next_iteration s) = step s"
  by (simp add: next_iteration_def)

lemma step_widen_window [simp]: "step (widen_window st s) = step s"
  by (simp add: widen_window_def)

lemma step_slide_window [simp]: "step (slide_window st s) = step s"
  by (simp add: slide_window_def)

lemma extends_call_loglh: "Loglh \<in> A \<Longrightarrow> extends A r0 r \<Longrightarrow> extends A r0 (snd (call_loglh ops r))"
  by (simp add: call_loglh_def extends_emit)

lemma extends_call_tip_count: "TipCount \<in> A \<Longrightarrow> extends A r0 r \<Longrightarrow> extends A r0 (snd (call_tip_count ops r))"
  by (simp add: call_tip_count_def extends_emit)

lemma extends_call_optimize_params_all:
  "OptimizeParamsAll eps \<in> A \<Longrightarrow> extends A r0 r \<Longrightarrow> extends A r0 (call_optimize_params_all ops eps r)"
  unfolding call_optimize_params_all_def by (rule extends_emit) (simp_all add: extends_def)

lemma extends_call_optimize_branches:
  "OptimizeBranches eps sm \<in> A \<Longrightarrow> extends A r0 r \<Longrightarrow> extends A r0 (snd (call_optimize_branches ops eps sm r))"
  unfolding call_optimize_branches_def split_beta Let_def snd_conv
  by (rule extends_emit) (simp_all add: extends_def)

lemma extends_call_spr_round:
  "SprRound p \<in> A \<Longrightarrow> extends A r0 r \<Longrightarrow> extends A r0 (snd (call_spr_round ops p r))"
  unfolding call_spr_round_def split_beta Let_def snd_conv
  by (rule extends_emit) (simp_all add: extends_def)

lemma extends_call_nni_round:
  "NniRound p \<in> A \<Longrightarrow> extends A r0 r \<Longrightarrow> extends A r0 (snd (call_nni_round ops p r))"
  unfolding call_nni_round_def split_beta Let_def snd_conv
  by (rule extends_emit) (simp_all add: extends_def)

lemma extends_nni:
  "NniRound (nni_params (search_state r)) \<in> A \<Longrightarrow> extends A r0 r \<Longrightarrow> extends A r0 (nni ops r)"
  unfolding nni_def split_beta Let_def
  by (intro extends_set_loglh extends_call_nni_round)

lemma extends_then_do:
  assumes "extends A r0 (final_state x)"
    and "\<And>a s. extends A r0 s \<Longrightarrow> extends A r0 (final_state (f a s))"
  shows "extends A r0 (final_state (then_do x f))"
  using assms by (cases x) auto

lemma extends_do_while:
  assumes "\<And>a s. extends A r0 s \<Longrightarrow> extends A r0 (snd (snd (body a s)))" and "extends A r0 s"
  shows "extends A r0 (final_state (do_while n body a s))"
  using assms by (rule do_while_final)

lemma extends_optimize_model:
  assumes "Loglh \<in> A" "OptimizeParamsAll eps \<in> A" "extends A r0 r"
  shows "extends A r0 (final_state (optimize_model n ops eps r))"
  unfolding optimize_model_def split_beta Let_def
proof (rule extends_do_while)
  show "extends A r0 (snd (call_loglh ops r))"
    using assms by (intro extends_call_loglh)
next
  fix a s assume "extends A r0 s"
  then show "extends A r0 (snd (snd (optimize_model_pass ops eps a s)))"
    unfolding optimize_model_pass_def split_beta Let_def snd_conv
    using assms(1,2) by (intro extends_call_loglh extends_call_optimize_params_all)
qed

lemma extends_loglh_optimize_model:
  assumes "Loglh \<in> A" "OptimizeParamsAll eps \<in> A" "extends A r0 r"
  shows "extends A r0 (final_state (loglh_optimize_model n ops eps r))"
  unfolding loglh_optimize_model_def
  by (rule extends_then_do) (simp_all add: extends_optimize_model assms extends_set_loglh)

lemma led_do_while:
  assumes pass: "\<And>a s. extends A (update_and_write s) (snd (snd (body a s)))" and "Persist \<in> A"
  shows "extends A (update_and_write r) (final_state (do_while n body a r))"
proof -
  have step: "extends A r0 (snd (snd (body a s)))" if "extends A r0 s" for r0 a s
    using that pass[of s a] assms(2) by (blast intro: extends_trans extends_update_and_write)
  show ?thesis
  proof (cases n)
    case 0
    then show ?thesis using pass[of r a] by (simp add: split_beta Let_def)
  next
    case (Suc m)
    have "extends A (update_and_write r) (final_state (do_while m body a' (snd (snd (body a r)))))" for a'
      by (rule extends_do_while) (auto intro: step pass)
    then show ?thesis using pass[of r a] by (simp add: Suc split_beta Let_def)
  qed
qed

section \<open>Stages\<close>

lemma between_quiet:
  assumes "between resume X E r" and "extends Q r r'" and "Q \<subseteq> quiet" and "Pair None ` Q \<subseteq> E"
  shows "between resume X E r'"
proof -
  from assms(1) have n: "in_stage r = None" and wt: "well_traced resume X E (trace r)"
    by (simp_all add: between_def)
  from assms(2) obtain acts where a: "trace r' = trace r @ map (Pair None) acts" "set acts \<subseteq> Q"
    and n': "in_stage r' = None" by (auto simp: extends_def n)
  have "well_traced resume X E (trace r @ map (Pair None) acts)"
    using wt a(2) assms(3,4) by (intro well_traced_quiet_block) auto
  then show ?thesis using a(1) n' by (simp add: between_def)
qed

lemma ok_outcome_Done: "between resume X E r \<Longrightarrow> ok_outcome resume X E (Done a r)"
  by (simp add: ok_outcome_def between_def)

lemma ok_outcome_then_do:
  assumes "ok_outcome resume X E x"
    and "\<And>a s. between resume X E s \<Longrightarrow> ok_outcome resume X E (f a s)"
  shows "ok_outcome resume X E (then_do x f)"
  using assms by (cases x) (auto simp: ok_outcome_def between_def)

lemma ok_outcome_leave_stage:
  assumes "well_traced resume X E (trace (final_state x))"
  shows "ok_outcome resume X E (then_do x (\<lambda>a r2. Done a (r2\<lparr>in_stage := None\<rparr>)))"
  using assms by (cases x) (auto simp: ok_outcome_def)

lemma stage_skipped:
  "\<not> step_ord resume \<le> step_ord s \<Longrightarrow> stage resume s d body r = Done d r"
  by (simp add: stage_def do_step_def)

lemma stage_entered:
  "step_ord resume \<le> step_ord s \<Longrightarrow>
   stage resume s d body r =
     then_do (body (r\<lparr>search_state := (search_state r)\<lparr>step := s\<rparr>, in_stage := Some s\<rparr>))
       (\<lambda>a r2. Done a (r2\<lparr>in_stage := None\<rparr>))"
  by (simp add: stage_def do_step_def)

lemma well_traced_led:
  assumes "well_traced resume X E (trace r)" and "in_stage r = Some s"
    and "step_ord resume \<le> step_ord s"
    and "extends A (update_and_write r) r'" and "Pair (Some s) ` insert Persist A \<subseteq> E"
  shows "well_traced resume X E (trace r')"
proof -
  from assms(4) obtain acts where
    "trace r' = trace r @ (Some s, Persist) # map (Pair (Some s)) acts" "set acts \<subseteq> A"
    by (auto simp: extends_def update_and_write_def emit_def assms(2))
  then show ?thesis
    using well_traced_persist_block[OF assms(1,3), where acts=acts] assms(5) by auto
qed

lemma stage_led:
  assumes led: "\<And>r. extends A (update_and_write r) (final_state (body r))"
    and E: "step_ord resume \<le> step_ord s \<Longrightarrow> Pair (Some s) ` insert Persist A \<subseteq> E"
    and r: "between resume X E r"
  shows "ok_outcome resume X E (stage resume s d body r)"
proof (cases "step_ord resume \<le> step_ord s")
  case False
  then show ?thesis using r by (simp add: stage_skipped ok_outcome_Done)
next
  case True
  let ?r1 = "r\<lparr>search_state := (search_state r)\<lparr>step := s\<rparr>, in_stage := Some s\<rparr>"
  have "well_traced resume X E (trace (final_state (body ?r1)))"
    using r by (intro well_traced_led[OF _ _ True led E[OF True]]) (simp_all add: between_def)
  then show ?thesis
    unfolding stage_entered[OF True] by (rule ok_outcome_leave_stage)
qed

lemma stage_quiet_then_led:
  assumes body: "\<And>r. \<exists>r1. extends {SetParams} r r1 \<and>
       (final_state (body r) = r1 \<or> extends A (update_and_write r1) (final_state (body r)))"
    and E: "step_ord resume \<le> step_ord s \<Longrightarrow> Pair (Some s) ` insert SetParams (insert Persist A) \<subseteq> E"
    and X: "s \<in> X"
    and r: "between resume X E r"
  shows "ok_outcome resume X E (stage resume s d body r)"
proof (cases "step_ord resume \<le> step_ord s")
  case False
  then show ?thesis using r by (simp add: stage_skipped ok_outcome_Done)
next
  case True
  let ?r0 = "r\<lparr>search_state := (search_state r)\<lparr>step := s\<rparr>, in_stage := Some s\<rparr>"
  from body[of ?r0] obtain r1 where r1: "extends {SetParams} ?r0 r1"
    and fin: "final_state (body ?r0) = r1 \<or> extends A (update_and_write r1) (final_state (body ?r0))"
    by blast
  from r1 obtain acts where acts: "trace r1 = trace r @ map (Pair (Some s)) acts" "set acts \<subseteq> {SetParams}"
    and s1: "in_stage r1 = Some s" by (auto simp: extends_def)
  have "well_traced resume X E (trace r @ map (Pair (Some s)) acts)"
    using r acts(2) E[OF True] X by (intro well_traced_quiet_block) (auto simp: between_def quiet_def)
  then have wt1: "well_traced resume X E (trace r1)" by (simp add: acts(1))
  have "well_traced resume X E (trace (final_state (body ?r0)))"
    using fin
  proof
    assume "final_state (body ?r0) = r1"
    then show ?thesis using wt1 by simp
  next
    assume "extends A (update_and_write r1) (final_state (body ?r0))"
    then show ?thesis
      using E[OF True] by (intro well_traced_led[OF wt1 s1 True]) auto
  qed
  then show ?thesis
    unfolding stage_entered[OF True] by (rule ok_outcome_leave_stage)
qed

section \<open>The bodies of the stages\<close>

lemma no_moves_simps [simp]:
  "Persist \<in> no_moves" "Loglh \<in> no_moves" "TipCount \<in> no_moves" "SetParams \<in> no_moves"
  "OptimizeParamsAll eps \<in> no_moves" "OptimizeBranches eps sm \<in> no_moves"
  by (simp_all add: no_moves_def)

lemmas extends_steps =
  extends_refl extends_update_and_write extends_set_loglh extends_set_params extends_call_loglh
  extends_call_tip_count
  extends_call_optimize_params_all extends_call_optimize_branches extends_call_spr_round
  extends_call_nni_round extends_nni extends_loglh_optimize_model extends_optimize_model
  extends_then_do

lemma final_state_Done_if [simp]:
  "final_state (if c then x else y) = (if c then final_state x else final_state y)"
  by simp

lemma led_brlenOpt:
  "no_moves \<subseteq> A \<Longrightarrow> extends A (update_and_write r) (final_state (topology_brlenOpt ops r))"
  unfolding topology_brlenOpt_def split_beta Let_def final_state.simps
  by (intro extends_steps) auto

lemma led_modOpt1:
  "no_moves \<subseteq> A \<Longrightarrow> extends A (update_and_write r) (final_state (topology_modOpt1 n ops r))"
  unfolding topology_modOpt1_def
  by (intro extends_steps) (auto intro!: extends_steps)

lemma led_modOpt2:
  "no_moves \<subseteq> A \<Longrightarrow> extends A (update_and_write r) (final_state (topology_modOpt2 n ops opt r))"
  unfolding topology_modOpt2_def
  by (intro extends_steps) (auto intro!: extends_steps)

lemma led_modOpt3:
  "no_moves \<subseteq> A \<Longrightarrow> extends A (update_and_write r) (final_state (topology_modOpt3 n ops st r))"
  unfolding topology_modOpt3_def
  by (intro extends_steps) (auto intro!: extends_steps)

lemma led_modOpt4:
  "no_moves \<subseteq> A \<Longrightarrow> extends A (update_and_write r) (final_state (topology_modOpt4 n ops r))"
  unfolding topology_modOpt4_def
  by (intro extends_steps) (auto intro!: extends_steps)

lemma led_persist_only: "extends A (update_and_write r) (final_state (persist_only r))"
  by (simp add: persist_only_def)

lemma led_spr_and_branches:
  "extends UNIV (update_and_write r) (snd (spr_and_branches ops opt r))"
  unfolding spr_and_branches_def split_beta Let_def snd_conv
  by (intro extends_steps) auto

lemma led_fastSPR:
  "extends UNIV (update_and_write r) (final_state (topology_fastSPR n ops opt r))"
  unfolding topology_fastSPR_def
  by (rule led_do_while) (simp_all add: fast_spr_round_def split_beta led_spr_and_branches)

lemma led_slowSPR:
  "extends UNIV (update_and_write r) (final_state (topology_slowSPR n ops opt rl st r))"
  unfolding topology_slowSPR_def
  by (rule led_do_while)
     (auto simp: slow_spr_round_def split_beta Let_def intro!: extends_set_params led_spr_and_branches)

lemma led_autodetect_round:
  "extends UNIV (update_and_write r) (snd (snd (autodetect_round ops rl st best r)))"
  unfolding autodetect_round_def split_beta Let_def
  by (auto intro!: extends_steps)

lemma radiusDetect_shape:
  "\<exists>r1. extends {SetParams} r r1 \<and>
     (final_state (topology_radiusDetect n ops rl st r) = r1 \<or>
      extends UNIV (update_and_write r1) (final_state (topology_radiusDetect n ops rl st r)))"
proof -
  define r1 where "r1 = (if iteration (search_state r) = 0
                then set_params (\<lambda>s. s\<lparr>spr_params := (spr_params s)
                         \<lparr>thorough := False, radius_min := 1, radius_max := 5,
                          ntopol_keep := 0, subtree_cutoff := 0\<rparr>,
                       fast_spr_radius := 5\<rparr>) r
                else r)"
  have 1: "extends {SetParams} r r1"
    unfolding r1_def by (auto intro!: extends_set_params)
  have 2: "final_state (topology_radiusDetect n ops rl st r) =
             final_state (autodetect_loop n ops rl st (loglh (search_state r1)) r1)"
    unfolding topology_radiusDetect_def Let_def r1_def[symmetric]
    by (cases "autodetect_loop n ops rl st (loglh (search_state r1)) r1") simp_all
  have 3: "final_state (autodetect_loop n ops rl st b r1) = r1 \<or>
           extends UNIV (update_and_write r1) (final_state (autodetect_loop n ops rl st b r1))" for b
    unfolding autodetect_loop_def
    by (auto intro!: led_do_while led_autodetect_round)
  show ?thesis using 1 2 3 by metis
qed

section \<open>The fixed schedule\<close>

lemma between_begin_run [simp]: "between resume X E (begin_run cm_state t)"
  by (simp add: between_def begin_run_def)

lemma between_set_loglh: "between resume X E r \<Longrightarrow> between resume X E (set_loglh l r)"
  by (simp add: between_def set_loglh_def)

lemma between_set_params:
  assumes "(None, SetParams) \<in> E" and "between resume X E r"
  shows "between resume X E (set_params f r)"
proof -
  have "well_traced resume X E (trace r @ map (Pair None) [SetParams])"
    using assms by (intro well_traced_quiet_block) (auto simp: between_def quiet_def)
  then show ?thesis
    using assms(2) by (simp add: between_def set_params_def emit_def)
qed

lemma between_call_loglh:
  "(None, Loglh) \<in> E \<Longrightarrow> between resume X E r \<Longrightarrow> between resume X E (snd (call_loglh ops r))"
  by (erule between_quiet[where Q="{Loglh}"]) (auto simp: quiet_def intro: extends_call_loglh)

lemma between_call_tip_count:
  "(None, TipCount) \<in> E \<Longrightarrow> between resume X E r \<Longrightarrow> between resume X E (snd (call_tip_count ops r))"
  by (erule between_quiet[where Q="{TipCount}"]) (auto simp: quiet_def intro: extends_call_tip_count)

lemma ok_outcome_if:
  "(c \<Longrightarrow> ok_outcome resume X E x) \<Longrightarrow> (\<not> c \<Longrightarrow> ok_outcome resume X E y)
   \<Longrightarrow> ok_outcome resume X E (if c then x else y)"
  by simp

lemmas between_steps =
  between_begin_run between_set_loglh between_set_params between_call_loglh between_call_tip_count
  ok_outcome_then_do ok_outcome_Done ok_outcome_if

lemma step_set_params_begin:
  "step (search_state (set_params (\<lambda>s. s\<lparr>spr_params := g s\<rparr>) (begin_run cm_state t))) = step cm_state"
  by (simp add: set_params_def emit_def begin_run_def)

lemmas topology_stages =
  stage_led[where A=UNIV, OF led_brlenOpt] stage_led[where A=UNIV, OF led_modOpt1]
  stage_quiet_then_led[where A=UNIV, OF radiusDetect_shape]
  stage_led[where A=UNIV, OF led_modOpt2] stage_led[where A=UNIV, OF led_fastSPR]
  stage_led[where A=UNIV, OF led_modOpt3] stage_led[where A=UNIV, OF led_slowSPR]
  stage_led[where A=UNIV, OF led_modOpt4] stage_led[where A=UNIV, OF led_persist_only]

lemma optimize_topology_ok:
  "ok_outcome (step cm_state) {radiusDetectOrNNI} UNIV (optimize_topology n ops opt cm_state t)"
  unfolding optimize_topology_def Let_def split_beta step_set_params_begin
  by (intro between_steps topology_stages) simp_all

section \<open>The adaptive schedule and evaluate\<close>

lemma led_adaptive_brlenOpt:
  "no_moves \<subseteq> A \<Longrightarrow> extends A (update_and_write r) (final_state (adaptive_brlenOpt ops r))"
  unfolding adaptive_brlenOpt_def split_beta Let_def final_state.simps
  by (intro extends_steps) auto

lemma led_adaptive_modOpt1:
  "no_moves \<subseteq> A \<Longrightarrow> extends A (update_and_write r) (final_state (adaptive_modOpt1 n ops r))"
  unfolding adaptive_modOpt1_def
  by (intro extends_steps) (auto intro!: extends_steps)

lemma led_adaptive_radiusDetectOrNNI:
  "extends UNIV (update_and_write r) (final_state (adaptive_radiusDetectOrNNI ops e r))"
  unfolding adaptive_radiusDetectOrNNI_def Let_def
  by (auto intro!: extends_steps)

lemma led_adaptive_modOpt2:
  "extends {Loglh, OptimizeParamsAll fast_modopt_eps} (update_and_write r)
     (final_state (adaptive_modOpt2 n ops e r))"
  unfolding adaptive_modOpt2_def Let_def
  by (auto intro!: extends_steps)

lemma led_spr_then_nni:
  "extends UNIV (update_and_write r) (snd (spr_then_nni ops st r))"
  unfolding spr_then_nni_def split_beta Let_def snd_conv
  by (auto intro!: extends_steps)

lemma led_fast_round:
  "extends UNIV (update_and_write r) (snd (snd (fast_round ops opt e rl st u r)))"
  unfolding fast_round_def split_beta Let_def
  by (auto intro!: extends_set_params led_spr_then_nni)

lemma adaptive_fastSPR_shape:
  "\<exists>r1. extends {SetParams} r r1 \<and>
     (final_state (adaptive_fastSPR n ops opt e rl st r) = r1 \<or>
      extends UNIV (update_and_write r1) (final_state (adaptive_fastSPR n ops opt e rl st r)))"
proof -
  define r1 where "r1 = (if iteration (search_state r) = 0
                then set_params (\<lambda>s. s\<lparr>spr_params := (spr_params s)
                         \<lparr>thorough := False, radius_min := 1, radius_max := st,
                          ntopol_keep := 0, subtree_cutoff := 0\<rparr>\<rparr>) r
                else r)"
  have 1: "extends {SetParams} r r1"
    unfolding r1_def by (auto intro!: extends_set_params)
  have 2: "extends UNIV (update_and_write r1) (final_state (adaptive_fastSPR n ops opt e rl st r))"
    unfolding adaptive_fastSPR_def Let_def r1_def[symmetric] fast_rounds_def
    by (intro led_do_while led_fast_round) simp
  show ?thesis using 1 2 by blast
qed

lemma led_adaptive_modOpt3:
  "no_moves \<subseteq> A \<Longrightarrow> extends A (update_and_write r) (final_state (adaptive_modOpt3 n ops opt rl r))"
  unfolding adaptive_modOpt3_def Let_def
  by (intro extends_steps) (auto intro!: extends_steps)

lemma led_slow_round:
  "extends UNIV (update_and_write r) (snd (snd (slow_round ops opt rl st u r)))"
  unfolding slow_round_def split_beta Let_def
  by (auto intro!: extends_steps)

lemma led_adaptive_slowSPR:
  "extends UNIV (update_and_write r) (final_state (adaptive_slowSPR n ops opt rl st r))"
  unfolding adaptive_slowSPR_def
  by (intro led_do_while led_slow_round) simp

lemma led_adaptive_modOpt4:
  "no_moves \<subseteq> A \<Longrightarrow> extends A (update_and_write r) (final_state (adaptive_modOpt4 n ops r))"
  unfolding adaptive_modOpt4_def
  by (intro extends_steps) (auto intro!: extends_steps)

lemma step_set_params_begin2:
  "step (search_state (set_params (\<lambda>s. s\<lparr>spr_params := g s, nni_params := h s\<rparr>) (begin_run cm_state t)))
     = step cm_state"
  by (simp add: set_params_def emit_def begin_run_def)

lemmas adaptive_stages =
  stage_led[where A=UNIV, OF led_adaptive_brlenOpt] stage_led[where A=UNIV, OF led_adaptive_modOpt1]
  stage_led[where A=UNIV, OF led_adaptive_radiusDetectOrNNI]
  stage_led[OF led_adaptive_modOpt2]
  stage_quiet_then_led[where A=UNIV, OF adaptive_fastSPR_shape]
  stage_led[where A=UNIV, OF led_adaptive_modOpt3] stage_led[where A=UNIV, OF led_adaptive_slowSPR]
  stage_led[where A=UNIV, OF led_adaptive_modOpt4] stage_led[where A=UNIV, OF led_persist_only]

lemma optimize_topology_adaptive_ok:
  "ok_outcome (step cm_state) {fastSPR} adaptive_events
     (optimize_topology_adaptive n ops opt cm_state t difficulty)"
  unfolding optimize_topology_adaptive_def Let_def split_beta step_set_params_begin2
  by (intro between_steps adaptive_stages) (auto simp: adaptive_events_def)

lemma led_evaluate_brlenOpt:
  "extends {a. branch_or_model a} (update_and_write r) (final_state (evaluate_brlenOpt ops r))"
  unfolding evaluate_brlenOpt_def split_beta Let_def final_state.simps
  by (intro extends_steps) auto

lemma led_evaluate_modOpt1:
  "extends {a. branch_or_model a} (update_and_write r) (final_state (evaluate_modOpt1 n ops opt r))"
  unfolding evaluate_modOpt1_def optimize_model_default_def
  by (intro extends_steps) (auto intro!: extends_steps)

lemma step_evaluate_begin:
  "step (search_state (set_loglh l (snd (call_loglh ops (begin_run cm_state t))))) = step cm_state"
  by (simp add: set_loglh_def call_loglh_def emit_def begin_run_def)

lemmas evaluate_stages =
  stage_led[OF led_evaluate_brlenOpt] stage_led[OF led_evaluate_modOpt1]
  stage_led[where A="{a. branch_or_model a}", OF led_persist_only]

lemma evaluate_ok:
  "ok_outcome (step cm_state) {} evaluate_events (evaluate n ops opt cm_state t)"
  unfolding evaluate_def Let_def split_beta step_evaluate_begin
  by (intro between_steps evaluate_stages) (auto simp: evaluate_events_def)

section \<open>Checkpoints and resumption\<close>

lemmas run_defs =
  optimize_topology_def optimize_topology_adaptive_def evaluate_def
  stage_def do_step_def begin_run_def set_params_def
  set_loglh_def call_loglh_def emit_def
  topology_brlenOpt_def topology_modOpt1_def topology_radiusDetect_def topology_modOpt2_def
  topology_fastSPR_def topology_modOpt3_def topology_slowSPR_def topology_modOpt4_def
  adaptive_brlenOpt_def adaptive_modOpt1_def adaptive_radiusDetectOrNNI_def adaptive_modOpt2_def
  adaptive_fastSPR_def adaptive_modOpt3_def adaptive_slowSPR_def adaptive_modOpt4_def
  evaluate_brlenOpt_def evaluate_modOpt1_def optimize_model_default_def
  persist_only_def update_and_write_def call_optimize_branches_def call_spr_round_def
  call_nni_round_def nni_def
  call_tip_count_def call_optimize_params_all_def loglh_optimize_model_def optimize_model_def
  optimize_model_pass_def autodetect_loop_def autodetect_round_def spr_and_branches_def
  fast_spr_round_def slow_spr_round_def fast_rounds_def fast_round_def spr_then_nni_def
  slow_round_def natural_condition_def fdiv_def widen_window_def slide_window_def
  next_iteration_def reset_cutoff_info_def
  spr_radius_limit_adaptive_b64_def int_of_double_def int_or_least_def
  spr_radius_step_adaptive_def trunc_int_def b64_eval
  fast_modopt_eps_def interim_modopt_eps_def final_modopt_eps_def
  halving_tree_def fresh_state_def example_opt_def

lemma then_do_weak_cong: "x = x' \<Longrightarrow> then_do x f = then_do x' f"
  by simp

lemma ok_outcome_well_traced:
  "ok_outcome resume X E x \<Longrightarrow> well_traced resume X E (trace (final_state x))"
  by (simp add: ok_outcome_def)

text \<open>
  C3. Whatever the resume cursor stored in the search state, none of the three schedules
  performs an operation that mutates the tree (\<^verbatim>\<open>optimize_branches\<close>, \<^verbatim>\<open>spr_round\<close>,
  \<^verbatim>\<open>nni_round\<close>, \<^verbatim>\<open>optimize_params_all\<close>) in a stage whose ordinal is below the cursor,
  nor outside a stage. This holds of every run, ended or not.
\<close>

theorem skip_on_resume:
  "list_all (skips_below (step cm_state))
     (trace (final_state (optimize_topology n ops opt cm_state t))) \<and>
   list_all (skips_below (step cm_state))
     (trace (final_state (optimize_topology_adaptive n ops opt cm_state t difficulty))) \<and>
   list_all (skips_below (step cm_state))
     (trace (final_state (evaluate n ops opt cm_state t)))"
  using ok_outcome_well_traced[OF optimize_topology_ok[of cm_state n ops opt t]]
    ok_outcome_well_traced[OF optimize_topology_adaptive_ok[of cm_state n ops opt t difficulty]]
    ok_outcome_well_traced[OF evaluate_ok[of cm_state n ops opt t]]
  by (simp add: well_traced_def)

theorem skip_on_resume_witness:
  "list_all (skips_below modOpt4)
     (trace (final_state (optimize_topology 6 halving_tree example_opt (fresh_state modOpt4) (-8)))) \<and>
   trace (final_state (optimize_topology 6 halving_tree example_opt (fresh_state modOpt4) (-8))) =
     [(None, SetParams), (None, Loglh), (None, TipCount),
      (Some modOpt4, Persist), (Some modOpt4, Loglh),
      (Some modOpt4, OptimizeParamsAll final_modopt_eps), (Some modOpt4, Loglh),
      (Some modOpt4, OptimizeParamsAll final_modopt_eps), (Some modOpt4, Loglh),
      (Some modOpt4, OptimizeParamsAll final_modopt_eps), (Some modOpt4, Loglh),
      (Some modOpt4, OptimizeParamsAll final_modopt_eps), (Some modOpt4, Loglh),
      (Some modOpt4, OptimizeParamsAll final_modopt_eps), (Some modOpt4, Loglh),
      (Some modOpt4, OptimizeParamsAll final_modopt_eps), (Some modOpt4, Loglh),
      (Some modOpt4, OptimizeParamsAll final_modopt_eps), (Some modOpt4, Loglh),
      (Some finish, Persist)]"
proof -
  have s: "step (fresh_state modOpt4) = modOpt4" by (simp add: fresh_state_def)
  have "list_all (skips_below modOpt4)
     (trace (final_state (optimize_topology 6 halving_tree example_opt (fresh_state modOpt4) (-8))))"
    using skip_on_resume[of "fresh_state modOpt4" 6 halving_tree example_opt "-8"]
    unfolding s by (rule conjunct1)
  moreover have "trace (final_state (optimize_topology 6 halving_tree example_opt (fresh_state modOpt4) (-8))) =
     [(None, SetParams), (None, Loglh), (None, TipCount),
      (Some modOpt4, Persist), (Some modOpt4, Loglh),
      (Some modOpt4, OptimizeParamsAll final_modopt_eps), (Some modOpt4, Loglh),
      (Some modOpt4, OptimizeParamsAll final_modopt_eps), (Some modOpt4, Loglh),
      (Some modOpt4, OptimizeParamsAll final_modopt_eps), (Some modOpt4, Loglh),
      (Some modOpt4, OptimizeParamsAll final_modopt_eps), (Some modOpt4, Loglh),
      (Some modOpt4, OptimizeParamsAll final_modopt_eps), (Some modOpt4, Loglh),
      (Some modOpt4, OptimizeParamsAll final_modopt_eps), (Some modOpt4, Loglh),
      (Some modOpt4, OptimizeParamsAll final_modopt_eps), (Some modOpt4, Loglh),
      (Some finish, Persist)]"
    by (simp add: run_defs Let_def numeral_nat
          cong: then_do_weak_cong let_weak_cong prod.case_cong_weak)
  ultimately show ?thesis by (rule conjI)
qed

text \<open>
  C8. Whatever the input and the resume cursor, every event of \<open>evaluate\<close> is a persist
  call, a query of the objective, a call of \<^verbatim>\<open>optimize_branches\<close> or a call of
  \<^verbatim>\<open>optimize_params_all\<close>: \<open>evaluate\<close> never calls \<^verbatim>\<open>spr_round\<close> or \<^verbatim>\<open>nni_round\<close>.
\<close>

theorem evaluate_never_moves:
  "list_all (\<lambda>e. branch_or_model (snd e) \<and> \<not> is_move (snd e))
     (trace (final_state (evaluate n ops opt cm_state t)))"
proof -
  have "branch_or_model a \<Longrightarrow> \<not> is_move a" for a by (cases a) simp_all
  then show ?thesis
    using ok_outcome_well_traced[OF evaluate_ok[of cm_state n ops opt t]]
    by (auto simp: well_traced_def evaluate_events_def list_all_iff)
qed

theorem evaluate_never_moves_witness:
  "list_all (\<lambda>e. branch_or_model (snd e) \<and> \<not> is_move (snd e))
     (trace (final_state (evaluate 6 halving_tree example_opt (fresh_state brlenOpt) (-1)))) \<and>
   map snd (trace (final_state (evaluate 6 halving_tree example_opt (fresh_state brlenOpt) (-1)))) =
     [Loglh, Persist, OptimizeBranches 10 1, Persist, Loglh,
      OptimizeParamsAll (1 / 10), Loglh, OptimizeParamsAll (1 / 10), Loglh,
      OptimizeParamsAll (1 / 10), Loglh, OptimizeParamsAll (1 / 10), Loglh, Persist]"
proof -
  have "map snd (trace (final_state (evaluate 6 halving_tree example_opt (fresh_state brlenOpt) (-1)))) =
     [Loglh, Persist, OptimizeBranches 10 1, Persist, Loglh,
      OptimizeParamsAll (1 / 10), Loglh, OptimizeParamsAll (1 / 10), Loglh,
      OptimizeParamsAll (1 / 10), Loglh, OptimizeParamsAll (1 / 10), Loglh, Persist]"
    by (simp add: run_defs Let_def numeral_nat
          cong: then_do_weak_cong let_weak_cong prod.case_cong_weak)
  then show ?thesis
    using evaluate_never_moves[of 6 halving_tree example_opt "fresh_state brlenOpt" "-1"]
    by (rule conjI[rotated])
qed

section \<open>What evaluate leaves of the search state\<close>

lemma same_params_refl [simp]: "same_params s s"
  by (simp add: same_params_def)

lemma same_params_loglh [simp]: "same_params s0 (s\<lparr>loglh := l\<rparr>) = same_params s0 s"
  by (simp add: same_params_def)

lemma same_params_step [simp]: "same_params s0 (s\<lparr>step := x\<rparr>) = same_params s0 s"
  by (simp add: same_params_def)

lemma search_state_emit [simp]: "search_state (emit a r) = search_state r"
  by (simp add: emit_def)

lemma search_state_update_and_write [simp]: "search_state (update_and_write r) = search_state r"
  by (simp add: update_and_write_def)

lemma search_state_set_loglh [simp]: "search_state (set_loglh l r) = (search_state r)\<lparr>loglh := l\<rparr>"
  by (simp add: set_loglh_def)

lemma search_state_call_loglh [simp]: "search_state (snd (call_loglh ops r)) = search_state r"
  by (simp add: call_loglh_def)

lemma search_state_call_optimize_params_all [simp]:
  "search_state (call_optimize_params_all ops eps r) = search_state r"
  by (simp add: call_optimize_params_all_def)

lemma search_state_call_optimize_branches [simp]:
  "search_state (snd (call_optimize_branches ops eps sm r)) = search_state r"
  by (simp add: call_optimize_branches_def split_beta)

lemma final_then_do:
  assumes "I (final_state x)" and "\<And>a s. I s \<Longrightarrow> I (final_state (f a s))"
  shows "I (final_state (then_do x f))"
  using assms by (cases x) auto

lemma search_state_optimize_model:
  "search_state (final_state (optimize_model n ops eps r)) = search_state r"
proof -
  have "search_state (final_state (do_while n (optimize_model_pass ops eps) l r0)) = search_state r"
    if "search_state r0 = search_state r" for l r0
    using that
    by (rule do_while_final[where I="\<lambda>x. search_state x = search_state r", rotated])
       (simp add: optimize_model_pass_def split_beta Let_def)
  then show ?thesis by (simp add: optimize_model_def split_beta)
qed

lemma same_params_stage:
  assumes "\<And>r. same_params s0 (search_state r) \<Longrightarrow> same_params s0 (search_state (final_state (body r)))"
    and "same_params s0 (search_state r)"
  shows "same_params s0 (search_state (final_state (stage resume s d body r)))"
proof (cases "step_ord resume \<le> step_ord s")
  case False
  then show ?thesis using assms(2) by (simp add: stage_skipped)
next
  case True
  let ?r1 = "r\<lparr>search_state := (search_state r)\<lparr>step := s\<rparr>, in_stage := Some s\<rparr>"
  have "same_params s0 (search_state (final_state (body ?r1)))"
    using assms(2) by (intro assms(1)) simp
  then show ?thesis
    unfolding stage_entered[OF True] by (cases "body ?r1") simp_all
qed

lemma same_params_evaluate:
  "same_params cm_state (search_state (final_state (evaluate n ops opt cm_state t)))"
proof -
  let ?I = "\<lambda>r :: 'a run. same_params cm_state (search_state r)"
  have b: "?I r \<Longrightarrow> ?I (final_state (evaluate_brlenOpt ops r))" for r
    by (simp add: evaluate_brlenOpt_def split_beta Let_def)
  have m: "?I r \<Longrightarrow> ?I (final_state (evaluate_modOpt1 n ops opt r))" for r
    unfolding evaluate_modOpt1_def optimize_model_default_def
    by (rule final_then_do[where I="?I"]) (simp_all add: search_state_optimize_model)
  have f: "?I r \<Longrightarrow> ?I (final_state (persist_only r))" for r
    by (simp add: persist_only_def)
  have 0: "?I (set_loglh l (snd (call_loglh ops (begin_run cm_state t))))" for l
    by (simp add: begin_run_def)
  show ?thesis
    unfolding evaluate_def Let_def split_beta
    by (intro final_then_do[where I="?I"] same_params_stage b m f 0) simp_all
qed

text \<open>
  C10. Whatever the input and the resume cursor, the search state \<open>evaluate\<close> leaves has
  the iteration counter, the SPR parameters, the NNI parameters and the fast SPR radius
  of the search state it was given: it assigns the objective and the cursor only. This
  holds of every run, ended or not.
\<close>

theorem evaluate_keeps_search_params:
  "iteration (search_state (final_state (evaluate n ops opt cm_state t))) = iteration cm_state \<and>
   spr_params (search_state (final_state (evaluate n ops opt cm_state t))) = spr_params cm_state \<and>
   nni_params (search_state (final_state (evaluate n ops opt cm_state t))) = nni_params cm_state \<and>
   fast_spr_radius (search_state (final_state (evaluate n ops opt cm_state t))) = fast_spr_radius cm_state"
  using same_params_evaluate[of cm_state n ops opt t] by (simp add: same_params_def)

section \<open>The second model optimization of the adaptive schedule\<close>

text \<open>
  C1. In \<open>optimize_topology_adaptive\<close> the stage \<^verbatim>\<open>modOpt2\<close> calls
  \<^verbatim>\<open>optimize_params_all\<close> with the fast epsilon 10 only, never with the interim epsilon 3
  which its progress line prints and which \<^verbatim>\<open>modOpt3\<close> uses: whatever the input, the
  actions of the stage are persist calls, queries of the objective and calls of
  \<^verbatim>\<open>optimize_params_all\<close> with epsilon 10.
\<close>

theorem adaptive_modOpt2_fast_epsilon:
  "set (stage_actions modOpt2
          (trace (final_state (optimize_topology_adaptive n ops opt cm_state t difficulty))))
     \<subseteq> {Persist, Loglh, OptimizeParamsAll 10} \<and>
   fast_modopt_eps = 10 \<and> interim_modopt_eps = 3"
proof -
  have "set (trace (final_state (optimize_topology_adaptive n ops opt cm_state t difficulty)))
          \<subseteq> adaptive_events"
    using ok_outcome_well_traced[OF optimize_topology_adaptive_ok[of cm_state n ops opt t difficulty]]
    by (simp add: well_traced_def)
  then show ?thesis
    by (auto simp: stage_actions_def adaptive_events_def fast_modopt_eps_def interim_modopt_eps_def)
qed

theorem adaptive_modOpt2_fast_epsilon_witness:
  "stage_actions modOpt2
     (trace (final_state (optimize_topology_adaptive 6 halving_tree example_opt
        (fresh_state modOpt2) (-10) (1 / 10))))
     = [Persist, Loglh, OptimizeParamsAll 10, Loglh] \<and>
   OptimizeParamsAll 3 \<notin> set (stage_actions modOpt2
     (trace (final_state (optimize_topology_adaptive 6 halving_tree example_opt
        (fresh_state modOpt2) (-10) (1 / 10)))))"
proof -
  have "OptimizeParamsAll 3 \<notin> set (stage_actions modOpt2
     (trace (final_state (optimize_topology_adaptive 6 halving_tree example_opt
        (fresh_state modOpt2) (-10) (1 / 10)))))"
    using adaptive_modOpt2_fast_epsilon[of 6 halving_tree example_opt "fresh_state modOpt2" "-10" "1 / 10"]
    by auto
  moreover have "stage_actions modOpt2
     (trace (final_state (optimize_topology_adaptive 6 halving_tree example_opt
        (fresh_state modOpt2) (-10) (1 / 10))))
     = [Persist, Loglh, OptimizeParamsAll 10, Loglh]"
    by (simp add: run_defs Let_def numeral_nat
          cong: then_do_weak_cong let_weak_cong prod.case_cong_weak)
  ultimately show ?thesis by (rule conjI[rotated])
qed

section \<open>Every executed stage persists\<close>

lemma persisted_up_to_append:
  "persisted_up_to resume S k tr \<Longrightarrow> persisted_up_to resume S k (tr @ es)"
  by (auto simp: persisted_up_to_def)


lemma persisted_up_to_0 [simp]: "persisted_up_to resume S 0 tr"
  by (simp add: persisted_up_to_def)


lemma persisted_emit: "persisted_up_to resume S k (trace r) \<Longrightarrow> persisted_up_to resume S k (trace (emit a r))"
  by (simp add: emit_def persisted_up_to_append)


lemma persisted_set_loglh:
  "persisted_up_to resume S k (trace r) \<Longrightarrow> persisted_up_to resume S k (trace (set_loglh l r))"
  by (simp add: set_loglh_def)

lemma persisted_call_loglh:
  "persisted_up_to resume S k (trace r) \<Longrightarrow> persisted_up_to resume S k (trace (snd (call_loglh ops r)))"
  by (simp add: call_loglh_def persisted_emit)








lemma step_ord_le_8 [simp]: "step_ord s \<le> 8"
  by (cases s) simp_all

lemma stage_finish:
  "stage resume finish d body r =
     then_do (body (r\<lparr>search_state := (search_state r)\<lparr>step := finish\<rparr>, in_stage := Some finish\<rparr>))
       (\<lambda>a r2. Done a (r2\<lparr>in_stage := None\<rparr>))"
  by (rule stage_entered) simp










section \<open>Persisting before mutating\<close>




section \<open>The forced round of the adaptive schedule\<close>

lemma search_state_set_params [simp]: "search_state (set_params f r) = f (search_state r)"
  by (simp add: set_params_def)

lemma search_state_call_spr_round [simp]:
  "search_state (snd (call_spr_round ops p r)) = search_state r"
  by (simp add: call_spr_round_def split_beta)

lemma search_state_call_nni_round [simp]:
  "search_state (snd (call_nni_round ops p r)) = search_state r"
  by (simp add: call_nni_round_def split_beta)

lemma spr_params_nni [simp]:
  "spr_params (search_state (nni ops r)) = spr_params (search_state r)"
  by (simp add: nni_def split_beta)

lemma spr_params_spr_then_nni [simp]:
  "spr_params (search_state (snd (spr_then_nni ops st r))) = spr_params (search_state r)"
  by (simp add: spr_then_nni_def split_beta Let_def next_iteration_def)







section \<open>Termination of the fixed schedule\<close>

lemma ends_in_Done: "Q s \<Longrightarrow> ends_in Q (\<lambda>n. Done a s)"
  by (auto simp: ends_in_def)

lemma ends_in_then_do:
  assumes "ends_in P f" and "\<And>a s. P s \<Longrightarrow> ends_in Q (\<lambda>n. g n a s)"
  shows "ends_in Q (\<lambda>n. then_do (f n) (g n))"
proof -
  from assms(1) obtain N a s where f: "\<forall>n\<ge>N. f n = Done a s" and "P s"
    by (auto simp: ends_in_def)
  from assms(2)[OF \<open>P s\<close>, of a] obtain N' b s' where g: "\<forall>n\<ge>N'. g n a s = Done b s'" and "Q s'"
    by (auto simp: ends_in_def)
  have "\<forall>n\<ge>max N N'. then_do (f n) (g n) = Done b s'"
    using f g by simp
  then show ?thesis using \<open>Q s'\<close> unfolding ends_in_def by blast
qed

lemma ends_in_weaken: "ends_in P f \<Longrightarrow> (\<And>s. P s \<Longrightarrow> Q s) \<Longrightarrow> ends_in Q f"
  unfolding ends_in_def by blast

lemma ends_in_final:
  assumes "ends_in P f" and "\<And>n. R (final_state (f n))"
  shows "ends_in (\<lambda>s. P s \<and> R s) f"
proof -
  from assms(1) obtain N a s where f: "\<forall>n\<ge>N. f n = Done a s" and "P s"
    by (auto simp: ends_in_def)
  have "R s" using assms(2)[of N] f by simp
  then show ?thesis using f \<open>P s\<close> unfolding ends_in_def by blast
qed

lemma do_while_ends:
  assumes inv: "\<And>a s. I s \<Longrightarrow> I (snd (snd (body a s)))"
    and dec: "\<And>a s. I s \<Longrightarrow> fst (body a s) \<Longrightarrow> m (snd (snd (body a s))) < (m s :: nat)"
    and "I s"
  shows "ends_in I (\<lambda>n. do_while n body a s)"
proof -
  have "\<exists>a' s'. (\<forall>n\<ge>k. do_while n body a s = Done a' s') \<and> I s'" if "I s" "m s \<le> k" for k a s
    using that
  proof (induction k arbitrary: a s)
    case 0
    then have na: "\<not> fst (body a s)" using dec[of s a] by auto
    have "do_while n body a s = Done (fst (snd (body a s))) (snd (snd (body a s)))" for n
      using na by (cases n) (simp_all add: split_beta Let_def)
    then show ?case using inv[OF 0(1), of a] by blast
  next
    case (Suc k)
    show ?case
    proof (cases "fst (body a s)")
      case False
      have "do_while n body a s = Done (fst (snd (body a s))) (snd (snd (body a s)))" for n
        using False by (cases n) (simp_all add: split_beta Let_def)
      then show ?thesis using inv[OF Suc.prems(1), of a] by blast
    next
      case True
      let ?a = "fst (snd (body a s))" and ?s = "snd (snd (body a s))"
      have "m ?s \<le> k" using dec[OF Suc.prems(1) True] Suc.prems(2) by simp
      from Suc.IH[OF inv[OF Suc.prems(1)] this, of ?a] obtain a' s'
        where r: "\<forall>n\<ge>k. do_while n body ?a ?s = Done a' s'" and "I s'" by blast
      have "do_while n body a s = Done a' s'" if "Suc k \<le> n" for n
      proof -
        from that obtain n' where "n = Suc n'" "k \<le> n'" by (cases n) auto
        then show ?thesis using True r by (simp add: split_beta Let_def)
      qed
      then show ?thesis using \<open>I s'\<close> by blast
    qed
  qed
  from this[OF assms(3) order_refl] show ?thesis unfolding ends_in_def by blast
qed

lemma holds_previous_simps [simp]:
  "holds_previous ops (emit a r) = holds_previous ops r"
  "holds_previous ops (update_and_write r) = holds_previous ops r"
  "holds_previous ops (r\<lparr>in_stage := tag\<rparr>) = holds_previous ops r"
  "holds_previous ops (r\<lparr>search_state := (search_state r)\<lparr>step := x\<rparr>\<rparr>) = holds_previous ops r"
  by (simp_all add: holds_previous_def emit_def update_and_write_def)

lemma tree_ops_simps [simp]:
  "ti_spr_round ops p \<in> tree_ops ops" "ti_nni_round ops q \<in> tree_ops ops"
  "ti_optimize_branches ops e sm \<in> tree_ops ops"
  by (auto simp: tree_ops_def)

lemma no_gain:
  assumes "never_improves ops" and "holds_previous ops r" and "f \<in> tree_ops ops"
  shows "fst (f (treeinfo r)) \<le> loglh (search_state r)"
  using assms unfolding never_improves_def holds_previous_def by metis

lemma holds_previous_after:
  assumes "f \<in> tree_ops ops" and "treeinfo r' = snd (f t)" and "loglh (search_state r') = fst (f t)"
  shows "holds_previous ops r'"
  using assms unfolding holds_previous_def by blast

lemma holds_previous_set_params:
  "(\<And>s. loglh (f s) = loglh s) \<Longrightarrow> holds_previous ops (set_params f r) = holds_previous ops r"
  by (simp add: holds_previous_def set_params_def emit_def)

lemma improvement_settles:
  assumes "double_valued ops" and "0 \<le> eps"
  shows "\<exists>k. \<not> improvement ops eps t k > eps"
proof (rule ccontr)
  assume "\<not> ?thesis"
  then have gt: "improvement ops eps t k > eps" for k by simp
  have up: "improvement ops eps t k > 0" for k
    using gt[of k] assms(2) by linarith
  have "loglh_after ops eps t k < loglh_after ops eps t (Suc k)" for k
    using up[of k] unfolding improvement_def by (rule sub64_positive)
  moreover have "finite_double (loglh_after ops eps t k)" for k
    using assms(1) by (simp add: double_valued_def loglh_after_def)
  ultimately show False
    using no_infinite_ascent[of "loglh_after ops eps t"] by blast
qed

lemma optimize_model_ends:
  assumes "double_valued ops" and "0 \<le> eps"
  shows "ends_in (holds_previous ops) (\<lambda>n. loglh_optimize_model n ops eps r)"
proof -
  let ?f = "improvement ops eps (treeinfo r)"
  from improvement_settles[OF assms] obtain k0 where "\<not> ?f k0 > eps" by blast
  then have "\<not> (\<forall>i\<le>k0. ?f i > eps)" by blast
  then obtain k where k: "\<forall>i<k. ?f i > eps" "\<not> ?f k > eps"
    by (rule first_small_improvement)
  let ?r' = "set_loglh (loglh_after ops eps (treeinfo r) (Suc k)) (after_model_calls ops eps (Suc k) r)"
  have "\<forall>n\<ge>k. loglh_optimize_model n ops eps r = Done () ?r'"
    using optimize_model_done[OF k] by (simp add: loglh_optimize_model_def)
  moreover have "holds_previous ops ?r'"
    by (simp add: holds_previous_def set_loglh_def after_model_calls_def loglh_after_def)
  ultimately show ?thesis unfolding ends_in_def by blast
qed

lemma detect_rounds_extends:
  assumes "extends A r r'" and "in_stage r \<noteq> Some radiusDetectOrNNI"
  shows "detect_rounds (trace r') = detect_rounds (trace r)"
proof -
  from assms(1) obtain acts where "trace r' = trace r @ map (Pair (in_stage r)) acts"
    by (auto simp: extends_def)
  then show ?thesis using assms(2) by (simp add: detect_rounds_def)
qed

lemma detect_rounds_led:
  assumes "extends A (update_and_write r) r'" and "in_stage r \<noteq> Some radiusDetectOrNNI"
  shows "detect_rounds (trace r') = detect_rounds (trace r)"
proof -
  have "detect_rounds (trace r') = detect_rounds (trace (update_and_write r))"
    using assms by (intro detect_rounds_extends[of A]) (simp_all add: update_and_write_def emit_def)
  also have "\<dots> = detect_rounds (trace r)"
    using assms(2) by (simp add: detect_rounds_def update_and_write_def emit_def)
  finally show ?thesis .
qed

lemma steady_mono: "steady ops c tag r \<Longrightarrow> c \<le> c' \<Longrightarrow> steady ops c' tag r"
  by (simp add: steady_def)

lemma ends_in_led_steady:
  assumes "\<And>r. holds_previous ops r \<Longrightarrow> ends_in (holds_previous ops) (\<lambda>n. body n r)"
    and "\<And>n r. extends A (update_and_write r) (final_state (body n r))"
    and "tag \<noteq> Some radiusDetectOrNNI" and "steady ops c tag r"
  shows "ends_in (steady ops c tag) (\<lambda>n. body n r)"
proof -
  have "ends_in (\<lambda>s. holds_previous ops s \<and>
      (detect_rounds (trace s) = detect_rounds (trace r) \<and> in_stage s = in_stage r)) (\<lambda>n. body n r)"
  proof (rule ends_in_final)
    show "ends_in (holds_previous ops) (\<lambda>n. body n r)"
      using assms(4) by (intro assms(1)) (simp add: steady_def)
    fix n
    show "detect_rounds (trace (final_state (body n r))) = detect_rounds (trace r) \<and>
          in_stage (final_state (body n r)) = in_stage r"
      using detect_rounds_led[OF assms(2)[of r n]] assms(2)[of r n] assms(3,4)
      by (auto simp: steady_def extends_def update_and_write_def emit_def)
  qed
  then show ?thesis
    by (rule ends_in_weaken) (use assms(4) in \<open>simp add: steady_def\<close>)
qed

lemma ends_in_stage:
  assumes body: "\<And>r1. steady ops c (Some s) r1 \<Longrightarrow> ends_in (steady ops c' (Some s)) (\<lambda>n. body n r1)"
    and "c \<le> c'" and "steady ops c None r"
  shows "ends_in (steady ops c' None) (\<lambda>n. stage resume s d (body n) r)"
proof (cases "step_ord resume \<le> step_ord s")
  case False
  then show ?thesis
    using assms(2,3) by (simp add: stage_skipped ends_in_Done steady_mono)
next
  case True
  let ?r1 = "r\<lparr>search_state := (search_state r)\<lparr>step := s\<rparr>, in_stage := Some s\<rparr>"
  have "ends_in (steady ops c' (Some s)) (\<lambda>n. body n ?r1)"
    using assms(3) by (intro body) (simp add: steady_def holds_previous_def)
  then have "ends_in (steady ops c' None)
      (\<lambda>n. then_do (body n ?r1) (\<lambda>a r2. Done a (r2\<lparr>in_stage := None\<rparr>)))"
    by (rule ends_in_then_do) (simp add: ends_in_Done steady_def holds_previous_def)
  then show ?thesis by (simp add: stage_entered[OF True])
qed

lemma ends_in_if:
  "(b \<Longrightarrow> ends_in Q f) \<Longrightarrow> (\<not> b \<Longrightarrow> ends_in Q g) \<Longrightarrow> ends_in Q (\<lambda>n. if b then f n else g n)"
  by (cases b) simp_all

section \<open>The stages on a tree that never improves\<close>

lemma treeinfo_simps [simp]:
  "treeinfo (emit a r) = treeinfo r"
  "treeinfo (update_and_write r) = treeinfo r"
  "treeinfo (set_loglh l r) = treeinfo r"
  "treeinfo (set_params f r) = treeinfo r"
  by (simp_all add: emit_def update_and_write_def set_loglh_def set_params_def)

lemma brlenOpt_ends:
  "ends_in (holds_previous ops) (\<lambda>n. topology_brlenOpt ops r)"
  unfolding topology_brlenOpt_def split_beta Let_def
  by (intro ends_in_Done holds_previous_after[where f="ti_optimize_branches ops fast_modopt_eps 1"
        and t="treeinfo r"])
     (simp_all add: call_optimize_branches_def split_beta set_loglh_def emit_def update_and_write_def)

lemma final_modopt_eps_nonneg: "0 \<le> final_modopt_eps"
  by (simp add: final_modopt_eps_def b64_eval)

lemma modOpt_ends:
  assumes "double_valued ops"
    and "0 \<le> eps"
    and "\<And>s. loglh (f s) = loglh s"
  shows "ends_in (holds_previous ops)
     (\<lambda>n. then_do (loglh_optimize_model n ops eps (update_and_write r))
            (\<lambda>_ r1. Done () (set_params f r1)))"
proof (rule ends_in_then_do)
  show "ends_in (holds_previous ops) (\<lambda>n. loglh_optimize_model n ops eps (update_and_write r))"
    using assms(1,2) by (rule optimize_model_ends)
next
  fix a s assume "holds_previous ops s"
  then show "ends_in (holds_previous ops) (\<lambda>n. Done () (set_params f s))"
    by (intro ends_in_Done) (simp add: holds_previous_set_params assms(3))
qed

lemma modOpt1_ends:
  "double_valued ops \<Longrightarrow> ends_in (holds_previous ops) (\<lambda>n. topology_modOpt1 n ops r)"
  unfolding topology_modOpt1_def by (rule modOpt_ends) (simp_all add: fast_modopt_eps_def)

lemma modOpt2_ends:
  "double_valued ops \<Longrightarrow> ends_in (holds_previous ops) (\<lambda>n. topology_modOpt2 n ops opt r)"
  unfolding topology_modOpt2_def by (rule modOpt_ends) (simp_all add: interim_modopt_eps_def)

lemma modOpt3_ends:
  "double_valued ops \<Longrightarrow> ends_in (holds_previous ops) (\<lambda>n. topology_modOpt3 n ops st r)"
  unfolding topology_modOpt3_def by (rule modOpt_ends) simp_all

lemma modOpt4_ends:
  assumes "double_valued ops"
  shows "ends_in (holds_previous ops) (\<lambda>n. topology_modOpt4 n ops r)"
  unfolding topology_modOpt4_def
  using assms final_modopt_eps_nonneg by (rule optimize_model_ends)

lemma spr_and_branches_sync:
  assumes "never_improves ops" and "holds_previous ops r"
  shows "holds_previous ops (snd (spr_and_branches ops opt r))"
    and "fst (spr_and_branches ops opt r) = loglh (search_state r)"
    and "loglh (search_state (snd (spr_and_branches ops opt r))) \<le> loglh (search_state r)"
    and "spr_params (search_state (snd (spr_and_branches ops opt r))) = spr_params (search_state r)"
proof -
  let ?p = "spr_params (search_state (set_params next_iteration (update_and_write r)))"
  let ?l1 = "fst (ti_spr_round ops ?p (treeinfo r))"
  let ?t1 = "snd (ti_spr_round ops ?p (treeinfo r))"
  let ?l2 = "fst (ti_optimize_branches ops (opt_lh_epsilon opt) 1 ?t1)"
  let ?t2 = "snd (ti_optimize_branches ops (opt_lh_epsilon opt) 1 ?t1)"
  have l: "loglh (search_state (snd (spr_and_branches ops opt r))) = ?l2"
      and t: "treeinfo (snd (spr_and_branches ops opt r)) = ?t2"
    by (simp_all add: spr_and_branches_def split_beta Let_def call_spr_round_def
          call_optimize_branches_def set_loglh_def emit_def)
  have 1: "?l1 \<le> loglh (search_state r)"
    by (rule no_gain[OF assms]) (rule tree_ops_simps)
  have 2: "?l2 \<le> ?l1"
    using assms(1) unfolding never_improves_def by (meson tree_ops_simps)
  show "holds_previous ops (snd (spr_and_branches ops opt r))"
    by (rule holds_previous_after[where f="ti_optimize_branches ops (opt_lh_epsilon opt) 1" and t="?t1"])
       (simp_all add: l t)
  show "fst (spr_and_branches ops opt r) = loglh (search_state r)"
    by (simp add: spr_and_branches_def split_beta Let_def next_iteration_def)
  show "loglh (search_state (snd (spr_and_branches ops opt r))) \<le> loglh (search_state r)"
    using 1 2 unfolding l by linarith
  show "spr_params (search_state (snd (spr_and_branches ops opt r))) = spr_params (search_state r)"
    by (simp add: spr_and_branches_def split_beta Let_def next_iteration_def)
qed

lemma sub64_no_gain: "a \<le> b \<Longrightarrow> 0 \<le> eps \<Longrightarrow> \<not> sub64 a b > eps"
  using sub64_positive[of a b] by auto

lemma fastSPR_ends:
  assumes "never_improves ops" and "0 \<le> opt_lh_epsilon opt"
    and "holds_previous ops r"
  shows "ends_in (holds_previous ops) (\<lambda>n. topology_fastSPR n ops opt r)"
  unfolding topology_fastSPR_def
proof (rule do_while_ends[where m="\<lambda>_. 0"])
  fix a s assume s: "holds_previous ops s"
  show "holds_previous ops (snd (snd (fast_spr_round ops opt a s)))"
    using spr_and_branches_sync(1)[OF assms(1) s] by (simp add: fast_spr_round_def split_beta)
  assume "fst (fast_spr_round ops opt a s)"
  then have False
    using spr_and_branches_sync(2,3)[OF assms(1) s, of opt] sub64_no_gain[OF _ assms(2)]
    by (simp add: fast_spr_round_def split_beta)
  then show "0 < (0::nat)" ..
qed (rule assms(3))

lemma slowSPR_ends:
  assumes "never_improves ops" and "0 \<le> opt_lh_epsilon opt"
    and "0 < st" and "holds_previous ops r"
  shows "ends_in (holds_previous ops) (\<lambda>n. topology_slowSPR n ops opt rl st r)"
  unfolding topology_slowSPR_def
proof (rule do_while_ends[where m="\<lambda>s. nat (rl + st - radius_max (spr_params (search_state s)))"])
  fix a s assume s: "holds_previous ops s"
  note sb = spr_and_branches_sync[OF assms(1) s, of opt]
  have ni: "\<not> sub64 (loglh (search_state (snd (spr_and_branches ops opt s)))) (fst (spr_and_branches ops opt s))
              > opt_lh_epsilon opt"
    using sb(2,3) assms(2) by (intro sub64_no_gain) simp_all
  show "holds_previous ops (snd (snd (slow_spr_round ops opt rl st a s)))"
    using sb(1) by (simp add: slow_spr_round_def split_beta Let_def holds_previous_set_params)
  assume "fst (slow_spr_round ops opt rl st a s)"
  then show "nat (rl + st - radius_max (spr_params (search_state (snd (snd (slow_spr_round ops opt rl st a s))))))
        < nat (rl + st - radius_max (spr_params (search_state s)))"
    using ni sb(4) assms(3) by (simp add: slow_spr_round_def split_beta Let_def)
qed (rule assms(4))

lemma autodetect_round_once:
  assumes "never_improves ops" and "holds_previous ops r"
  shows "\<exists>p. autodetect_round ops rl st (loglh (search_state r)) r =
           (False, loglh (search_state r),
            set_loglh (fst (ti_spr_round ops p (treeinfo r)))
              (snd (call_spr_round ops p (set_params next_iteration (update_and_write r)))))"
proof -
  let ?p = "spr_params (search_state (set_params next_iteration (update_and_write r)))"
  have "fst (ti_spr_round ops ?p (treeinfo r)) \<le> loglh (search_state r)"
    by (rule no_gain[OF assms]) (rule tree_ops_simps)
  then have "\<not> sub64 (fst (ti_spr_round ops ?p (treeinfo r))) (loglh (search_state r)) > round64 (1 / 10)"
    using final_modopt_eps_nonneg unfolding final_modopt_eps_def by (intro sub64_no_gain)
  then have "autodetect_round ops rl st (loglh (search_state r)) r =
           (False, loglh (search_state r),
            set_loglh (fst (ti_spr_round ops ?p (treeinfo r)))
              (snd (call_spr_round ops ?p (set_params next_iteration (update_and_write r)))))"
    by (simp add: autodetect_round_def split_beta Let_def call_spr_round_def)
  then show ?thesis by blast
qed

lemma radiusDetect_ends:
  assumes "never_improves ops"
    and "steady ops 0 (Some radiusDetectOrNNI) r"
  shows "ends_in (steady ops 1 (Some radiusDetectOrNNI)) (\<lambda>n. topology_radiusDetect n ops rl st r)"
proof -
  define r1 where "r1 = (if iteration (search_state r) = 0
                then set_params (\<lambda>s. s\<lparr>spr_params := (spr_params s)
                         \<lparr>thorough := False, radius_min := 1, radius_max := 5,
                          ntopol_keep := 0, subtree_cutoff := 0\<rparr>,
                       fast_spr_radius := 5\<rparr>) r
                else r)"
  have s1: "holds_previous ops r1"
    using assms(2) by (simp add: r1_def steady_def holds_previous_set_params)
  have d1: "detect_rounds (trace r1) = 0" and g1: "in_stage r1 = Some radiusDetectOrNNI"
    using assms(2)
    by (auto simp: r1_def steady_def detect_rounds_def set_params_def emit_def)
  from autodetect_round_once[OF assms(1) s1, of rl st] obtain p where
    p: "autodetect_round ops rl st (loglh (search_state r1)) r1 =
           (False, loglh (search_state r1),
            set_loglh (fst (ti_spr_round ops p (treeinfo r1)))
              (snd (call_spr_round ops p (set_params next_iteration (update_and_write r1)))))"
    by blast
  let ?r4 = "set_loglh (fst (ti_spr_round ops p (treeinfo r1)))
              (snd (call_spr_round ops p (set_params next_iteration (update_and_write r1))))"
  have loop: "do_while n (autodetect_round ops rl st) (loglh (search_state r1)) r1
                = Done (loglh (search_state r1)) ?r4" for n
    by (cases n) (simp_all add: p)
  have "holds_previous ops ?r4"
    by (rule holds_previous_after[where f="ti_spr_round ops p" and t="treeinfo r1"])
       (simp_all add: set_loglh_def call_spr_round_def split_beta emit_def)
  then have s4: "steady ops 1 (Some radiusDetectOrNNI) ?r4"
    using d1 g1
    by (simp add: steady_def set_loglh_def call_spr_round_def split_beta
          detect_rounds_def set_params_def emit_def update_and_write_def)
  have "topology_radiusDetect n ops rl st r =
          Done () (if radius_min (spr_params (search_state r1)) < rl then ?r4 else r1)" for n
    unfolding topology_radiusDetect_def Let_def r1_def[symmetric] autodetect_loop_def
    by (simp add: loop)
  moreover have "steady ops 1 (Some radiusDetectOrNNI)
      (if radius_min (spr_params (search_state r1)) < rl then ?r4 else r1)"
    using s4 s1 d1 g1 by (simp add: steady_def)
  ultimately show ?thesis unfolding ends_in_def by blast
qed

lemma steady_call_tip_count:
  "steady ops c None r \<Longrightarrow> steady ops c None (snd (call_tip_count ops r))"
  by (simp add: steady_def holds_previous_def detect_rounds_def call_tip_count_def emit_def)

lemma steady_set_radius:
  "steady ops c None r \<Longrightarrow> steady ops c None (set_params (\<lambda>s. s\<lparr>fast_spr_radius := x\<rparr>) r)"
  by (simp add: steady_def holds_previous_def detect_rounds_def set_params_def emit_def)

lemma steady_begin:
  "steady ops 0 None (set_loglh (fst (call_loglh ops (set_params (\<lambda>s. s\<lparr>spr_params := g s\<rparr>) (begin_run cm_state t))))
      (snd (call_loglh ops (set_params (\<lambda>s. s\<lparr>spr_params := g s\<rparr>) (begin_run cm_state t)))))"
  by (simp add: steady_def holds_previous_def detect_rounds_def set_params_def emit_def begin_run_def
        set_loglh_def call_loglh_def)

lemma finish_ends:
  assumes "steady ops 1 None r"
  shows "ends_in (\<lambda>x. step (search_state x) = finish \<and> last (trace x) = (Some finish, Persist) \<and>
                    detect_rounds (trace x) \<le> 1)
     (\<lambda>n. then_do (stage resume finish () persist_only r) (\<lambda>_ r12. Done (loglh (search_state r12)) r12))"
  using assms
  by (simp add: stage_finish persist_only_def update_and_write_def emit_def ends_in_Done
        steady_def detect_rounds_def)

lemmas topology_stage_ends =
  ends_in_stage[where c=0 and c'=0, OF ends_in_led_steady[OF brlenOpt_ends led_brlenOpt[where A=UNIV]]]
  ends_in_stage[where c=0 and c'=0, OF ends_in_led_steady[OF modOpt1_ends led_modOpt1[where A=UNIV]]]
  ends_in_stage[where c=0 and c'=1, OF radiusDetect_ends]
  ends_in_stage[where c=1 and c'=1, OF ends_in_led_steady[OF modOpt2_ends led_modOpt2[where A=UNIV]]]
  ends_in_stage[where c=1 and c'=1, OF ends_in_led_steady[OF fastSPR_ends led_fastSPR]]
  ends_in_stage[where c=1 and c'=1, OF ends_in_led_steady[OF modOpt3_ends led_modOpt3[where A=UNIV]]]
  ends_in_stage[where c=1 and c'=1, OF ends_in_led_steady[OF slowSPR_ends led_slowSPR]]
  ends_in_stage[where c=1 and c'=1, OF ends_in_led_steady[OF modOpt4_ends led_modOpt4[where A=UNIV]]]

text \<open>
  C5, as amended. Take a tree whose SPR, NNI and branch-length operations never improve
  the objective (what such an operation returns never exceeds the previous value), whose
  objective is always a finite \<^verbatim>\<open>double\<close>, and a main epsilon that is not negative. Then
  \<open>optimize_topology\<close> returns, from every checkpoint: with enough permitted repetitions
  of its loops it ends, always in the same state. That state has the cursor at
  \<^verbatim>\<open>finish\<close>, its last event is the persist call of the stage \<^verbatim>\<open>finish\<close>, and the
  autodetection loop has run at most one SPR round. Nothing is asked of
  \<^verbatim>\<open>optimize_params_all\<close>: a model optimization ends because its epsilon is positive and
  no sequence of \<^verbatim>\<open>double\<close>s increases for ever.
\<close>

theorem optimize_topology_terminates:
  assumes "never_improves ops" and "double_valued ops" and "0 \<le> opt_lh_epsilon opt"
  shows "\<exists>N v r. (\<forall>n\<ge>N. optimize_topology n ops opt cm_state t = Done v r) \<and>
           step (search_state r) = finish \<and> last (trace r) = (Some finish, Persist) \<and>
           detect_rounds (trace r) \<le> 1"
proof -
  have "ends_in (\<lambda>x. step (search_state x) = finish \<and> last (trace x) = (Some finish, Persist) \<and>
                    detect_rounds (trace x) \<le> 1)
          (\<lambda>n. optimize_topology n ops opt cm_state t)"
    unfolding optimize_topology_def Let_def split_beta step_set_params_begin
    apply (rule ends_in_then_do[where P="steady ops 0 None"])
     apply (rule topology_stage_ends(1); simp add: assms steady_begin)
    apply (rule ends_in_then_do[where P="steady ops 0 None"])
     apply (rule topology_stage_ends(2); simp add: assms)
    apply (rule ends_in_then_do[where P="steady ops 1 None"])
     apply (rule ends_in_if)
      apply (rule ends_in_Done)
      apply (rule steady_mono[where c=0])
       apply (rule steady_set_radius, rule steady_call_tip_count, assumption)
      apply simp
     apply (rule topology_stage_ends(3); simp add: assms steady_call_tip_count)
    apply (rule ends_in_then_do[where P="steady ops 1 None"])
     apply (rule topology_stage_ends(4); simp add: assms)
    apply (rule ends_in_then_do[where P="steady ops 1 None"])
     apply (rule topology_stage_ends(5); simp add: assms)
    apply (rule ends_in_then_do[where P="steady ops 1 None"])
     apply (rule topology_stage_ends(6); simp add: assms)
    apply (rule ends_in_then_do[where P="steady ops 1 None"])
     apply (rule topology_stage_ends(7); simp add: assms)
    apply (rule ends_in_then_do[where P="steady ops 1 None"])
     apply (rule topology_stage_ends(8); simp add: assms)
    apply (rule finish_ends, assumption)
    done
  then show ?thesis unfolding ends_in_def by blast
qed

lemma never_improves_settling: "never_improves settling_tree"
  by (auto simp: never_improves_def tree_ops_def settling_tree_def)

lemma double_valued_settling: "double_valued settling_tree"
  by (simp add: double_valued_def settling_tree_def finite_double_def max_double_def b64_eval)

theorem optimize_topology_terminates_witness:
  "never_improves settling_tree \<and> double_valued settling_tree \<and>
   0 \<le> opt_lh_epsilon example_opt \<and>
   (\<exists>N v r. (\<forall>n\<ge>N. optimize_topology n settling_tree example_opt (fresh_state brlenOpt) False
                = Done v r) \<and>
      step (search_state r) = finish \<and> last (trace r) = (Some finish, Persist) \<and>
      detect_rounds (trace r) \<le> 1)"
proof -
  have d: "0 \<le> opt_lh_epsilon example_opt"
    by (simp add: example_opt_def)
  show ?thesis
    using optimize_topology_terminates[OF never_improves_settling double_valued_settling d,
        of "fresh_state brlenOpt" False]
      never_improves_settling double_valued_settling d
    by blast
qed

text \<open>
  The claim as stated fails. On \<open>settling_tree\<close> the SPR, NNI and branch-length
  operations never improve the objective. With a main epsilon of \<open>- 1\<close> every pass of the
  loop of the stage \<^verbatim>\<open>fastSPR\<close> finds an improvement of 0, which is above the epsilon,
  and however many repetitions are permitted the run does not return.
\<close>

lemma do_while_never_ends:
  assumes "\<And>a s. I s \<Longrightarrow> fst (body a s) \<and> I (snd (snd (body a s)))" and "I s"
  shows "\<exists>s'. do_while n body a s = OutOfFuel s'"
  using assms(2)
proof (induction n arbitrary: a s)
  case 0
  then show ?case using assms(1)[of s a] by (simp add: split_beta Let_def)
next
  case (Suc n)
  then show ?case using assms(1)[of s a] by (simp add: split_beta Let_def)
qed

lemma sub64_same [simp]: "sub64 a a = 0"
  by (simp add: sub64_def round64_def)

lemma stage_fastSPR_negative_epsilon:
  assumes "loglh (search_state r) = ti_loglh settling_tree (treeinfo r)"
    and "opt_lh_epsilon opt < 0" and "step_ord resume \<le> step_ord fastSPR"
  shows "\<exists>r'. then_do (stage resume fastSPR () (topology_fastSPR n settling_tree opt) r) K = OutOfFuel r'"
proof -
  let ?I = "\<lambda>s. loglh (search_state s) = ti_loglh settling_tree (treeinfo s)"
  let ?r1 = "r\<lparr>search_state := (search_state r)\<lparr>step := fastSPR\<rparr>, in_stage := Some fastSPR\<rparr>"
  have again: "fst (fast_spr_round settling_tree opt a s) \<and> ?I (snd (snd (fast_spr_round settling_tree opt a s)))"
    if s: "?I s" for a s
    using s assms(2)
    by (simp add: fast_spr_round_def spr_and_branches_def split_beta Let_def call_spr_round_def
          call_optimize_branches_def set_loglh_def set_params_def update_and_write_def emit_def
          next_iteration_def settling_tree_def)
  have "?I ?r1" using assms(1) by simp
  then obtain r' where "topology_fastSPR n settling_tree opt ?r1 = OutOfFuel r'"
    unfolding topology_fastSPR_def
    using do_while_never_ends[where I="?I" and body="fast_spr_round settling_tree opt", OF again]
    by blast
  then show ?thesis by (simp add: stage_entered[OF assms(3)])
qed

theorem optimize_topology_diverges_counterexample:
  "never_improves settling_tree \<and> double_valued settling_tree \<and>
   (\<forall>n. \<exists>r. optimize_topology n settling_tree (example_opt\<lparr>opt_lh_epsilon := - 1\<rparr>)
              (fresh_state fastSPR) False = OutOfFuel r)"
proof -
  have d: "\<exists>r. optimize_topology n settling_tree (example_opt\<lparr>opt_lh_epsilon := - 1\<rparr>)
              (fresh_state fastSPR) False = OutOfFuel r" for n
  proof -
    have s: "step (fresh_state fastSPR) = fastSPR" by (simp add: fresh_state_def)
    show ?thesis
      unfolding optimize_topology_def Let_def split_beta step_set_params_begin s
      apply (simp add: stage_skipped example_opt_def)
      apply (rule stage_fastSPR_negative_epsilon)
        apply (simp_all add: call_tip_count_def call_loglh_def set_loglh_def
          set_params_def emit_def begin_run_def settling_tree_def)
      done
  qed
  show ?thesis using never_improves_settling double_valued_settling d by blast
qed

section \<open>The radius limit\<close>

lemmas b64_defs = spr_radius_limit_adaptive_b64_def spr_radius_limit_adaptive_fused_def
  int_of_double_def round64_def round_half_even_def ulp64_def pow2_def trunc_int_def third_def
  binade_numeral

lemma radius_limit_symmetric: "spr_radius_limit_adaptive d = spr_radius_limit_adaptive (1 - d)"
proof -
  have e: "- 30 * (1 - d) + 35 = 30 * d + 5" "30 * (1 - d) + 5 = - 30 * d + 35"
    by simp_all
  consider "d < 1 / 2" | "d = 1 / 2" | "d > 1 / 2" by linarith
  then show ?thesis
  proof cases
    case 1
    then show ?thesis unfolding spr_radius_limit_adaptive_def e by simp
  next
    case 2
    then have "1 - d = d" by simp
    then show ?thesis by (simp only:)
  next
    case 3
    then show ?thesis unfolding spr_radius_limit_adaptive_def e by simp
  qed
qed

text \<open>
  C7, as amended. \<open>spr_radius_limit_adaptive\<close> is 20 at 0.5 and 5 at 0 and at 1, in
  binary64 arithmetic (compiled either way) as in exact arithmetic. In exact arithmetic
  it is symmetric about 0.5: the limit at \<open>d\<close> is the limit at \<open>1 - d\<close>, for every real
  \<open>d\<close>. Nothing is said of the symmetry in binary64 arithmetic.
\<close>

theorem radius_limit_values_and_symmetry:
  "spr_radius_limit_adaptive_b64 (1 / 2) = Some 20 \<and>
   spr_radius_limit_adaptive_b64 0 = Some 5 \<and>
   spr_radius_limit_adaptive_b64 1 = Some 5 \<and>
   spr_radius_limit_adaptive_fused (1 / 2) = Some 20 \<and>
   spr_radius_limit_adaptive_fused 0 = Some 5 \<and>
   spr_radius_limit_adaptive_fused 1 = Some 5 \<and>
   spr_radius_limit_adaptive (1 / 2) = 20 \<and>
   spr_radius_limit_adaptive 0 = 5 \<and>
   spr_radius_limit_adaptive 1 = 5 \<and>
   spr_radius_limit_adaptive d = spr_radius_limit_adaptive (1 - d)"
proof -
  have "spr_radius_limit_adaptive_b64 (1 / 2) = Some 20" "spr_radius_limit_adaptive_b64 0 = Some 5"
    "spr_radius_limit_adaptive_b64 1 = Some 5"
    by (simp_all add: b64_defs)
  moreover have "spr_radius_limit_adaptive_fused (1 / 2) = Some 20"
    "spr_radius_limit_adaptive_fused 0 = Some 5" "spr_radius_limit_adaptive_fused 1 = Some 5"
    by (simp_all add: b64_defs)
  moreover have "spr_radius_limit_adaptive (1 / 2) = 20" "spr_radius_limit_adaptive 0 = 5"
    "spr_radius_limit_adaptive 1 = 5"
    by (simp_all add: spr_radius_limit_adaptive_def trunc_int_def)
  ultimately show ?thesis using radius_limit_symmetric[of d] by simp
qed

text \<open>
  The claim as stated fails in the arithmetic of the code. \<open>third\<close> is a \<^verbatim>\<open>double\<close> in
  \<open>[0, 1]\<close>; the limit at \<open>third\<close> is 15, and the limit at \<^verbatim>\<open>1 - third\<close>, the difference
  being rounded as a \<^verbatim>\<open>double\<close> subtraction rounds it, is 14, whether or not product
  and sum are fused.
\<close>

theorem radius_limit_asymmetric_counterexample:
  "round64 third = third \<and> 0 \<le> third \<and> third \<le> 1 \<and>
   spr_radius_limit_adaptive_b64 third = Some 15 \<and>
   spr_radius_limit_adaptive_b64 (round64 (1 - third)) = Some 14 \<and>
   spr_radius_limit_adaptive_fused third = Some 15 \<and>
   spr_radius_limit_adaptive_fused (round64 (1 - third)) = Some 14"
proof -
  have "round64 third = third" "0 \<le> third" "third \<le> 1"
    by (simp_all add: b64_defs)
  moreover have "spr_radius_limit_adaptive_b64 third = Some 15"
    "spr_radius_limit_adaptive_b64 (round64 (1 - third)) = Some 14"
    by (simp_all add: b64_defs)
  moreover have "spr_radius_limit_adaptive_fused third = Some 15"
    "spr_radius_limit_adaptive_fused (round64 (1 - third)) = Some 14"
    by (simp_all add: b64_defs)
  ultimately show ?thesis by simp
qed


end
